theory Spec2Isabelle
  imports Main "HOL-Library.AList" "HOL-Library.Multiset" "HOL-Library.Product_Lexorder"
begin

section \<open>The local grid of \<^verbatim>\<open>jip/grids.py\<close>\<close>

text \<open>
  The module holds three things: the client side \<^verbatim>\<open>LocalCluster\<close>, the actor
  \<^verbatim>\<open>_GridMaster\<close> that owns the queued and running jobs and the slot counters, and
  the executor \<^verbatim>\<open>_execute_job\<close> that runs one job. They talk through two
  queues. The embedding keeps the master's state in a record that every handler takes and
  returns, the queues as lists of messages, and every exception as a value.

  Conventions of the embedding.
  \<^item> Python integers are \<open>int\<close>.
  \<^item> A Python \<^verbatim>\<open>set\<close> of integers is a list of its elements in iteration order.
    The operations below compute the set Python computes, for every such order.
  \<^item> A Python \<^verbatim>\<open>dict\<close> from job ids to jobs is an association list, read with
    \<open>map_of\<close>, written with \<open>AList.update\<close> and \<open>AList.delete\<close>.
  \<^item> \<^verbatim>\<open>_Job.job_id\<close> is the key under which the job is stored:
    \<^verbatim>\<open>_handle_submit\<close> writes \<^verbatim>\<open>job.job_id = job_id\<close> and
    \<^verbatim>\<open>self.queued[job_id] = job\<close> together and nothing else assigns either, so a job
    travels as the pair of its id and its record.
  \<^item> \<^verbatim>\<open>_Job.process\<close> is a flag: whether the job holds a process handle.
  \<^item> The keys of an association list are in the order of their insertion, one of the
    orders in which Python may iterate over a dictionary; only the reply to
    \<^verbatim>\<open>JOBS\<close> shows it.
  \<^item> A recursion that ends returns, however deep it is: the recursion limit of the
    interpreter is not part of the model.
\<close>

subsection \<open>Errors\<close>

datatype error =
    SubmissionError string
  | AttributeError string
  | KeyError
  | TypeError
  | RecursionError
  | OSError

subsection \<open>Python sets of integers\<close>

definition set_add :: "int \<Rightarrow> int list \<Rightarrow> int list" where
  "set_add x xs = (if x \<in> set xs then xs else xs @ [x])"

definition set_remove :: "int \<Rightarrow> int list \<Rightarrow> error + int list" where
  "set_remove x xs = (if x \<in> set xs then Inr (removeAll x xs) else Inl KeyError)"

definition len_set :: "int list \<Rightarrow> nat" where
  "len_set xs = length (remdups xs)"

subsection \<open>\<^verbatim>\<open>_Job\<close>\<close>

record job =
  cmd :: string
  working_directory :: string
  stdout :: "string option"
  stderr :: "string option"
  dependencies :: "int list"
  threads :: int
  children :: "int list"
  process :: bool

text \<open>\<^verbatim>\<open>_Job.__init__\<close>: no children, no process.\<close>

definition new_Job :: "string \<Rightarrow> string \<Rightarrow> string option \<Rightarrow> string option \<Rightarrow> int list \<Rightarrow> int \<Rightarrow> job" where
  "new_Job c cwd out err deps n =
     \<lparr>cmd = c, working_directory = cwd, stdout = out, stderr = err,
      dependencies = deps, threads = n, children = [], process = False\<rparr>"

text \<open>\<^verbatim>\<open>_Job.__lt__\<close>, on jobs with their ids.\<close>

fun job_lt :: "int \<times> job \<Rightarrow> int \<times> job \<Rightarrow> bool" where
  "job_lt (self_id, self) (other_id, other) =
     (let num_deps = len_set (dependencies self);
          o_deps = len_set (dependencies other)
      in if num_deps = o_deps then self_id < other_id else num_deps < o_deps)"

text \<open>
  \<^verbatim>\<open>sorted\<close> is stable and compares with \<^verbatim>\<open><\<close> only: an element is put
  before the first one that is not smaller than it.
\<close>

fun insort_lt :: "('a \<Rightarrow> 'a \<Rightarrow> bool) \<Rightarrow> 'a \<Rightarrow> 'a list \<Rightarrow> 'a list" where
  "insort_lt lt x [] = [x]"
| "insort_lt lt x (y # ys) = (if lt y x then y # insort_lt lt x ys else x # y # ys)"

definition py_sorted :: "('a \<Rightarrow> 'a \<Rightarrow> bool) \<Rightarrow> 'a list \<Rightarrow> 'a list" where
  "py_sorted lt xs = foldr (insort_lt lt) xs []"

subsection \<open>Log paths\<close>

function str_nat :: "nat \<Rightarrow> string" where
  "str_nat n =
     (if n < 10 then [''0123456789'' ! n]
      else str_nat (n div 10) @ [''0123456789'' ! (n mod 10)])"
  by pat_completeness auto
termination
  by (relation "measure id") auto

definition str_int :: "int \<Rightarrow> string" where
  "str_int i = (if i < 0 then CHR ''-'' # str_nat (nat (- i)) else str_nat (nat i))"

text \<open>\<^verbatim>\<open>path.replace("%J", r)\<close>: every occurrence, left to right.\<close>

fun replace_J :: "string \<Rightarrow> string \<Rightarrow> string" where
  "replace_J r (a # b # cs) =
     (if a = CHR ''%'' \<and> b = CHR ''J'' then r @ replace_J r cs
      else a # replace_J r (b # cs))"
| "replace_J r cs = cs"

definition resolve_log :: "int \<Rightarrow> string option \<Rightarrow> string option" where
  "resolve_log job_id path =
     (case path of None \<Rightarrow> None | Some p \<Rightarrow> Some (replace_J (str_int job_id) p))"

subsection \<open>\<^verbatim>\<open>_GridMaster\<close>\<close>

datatype reply = JobId int | JobList "int list"

datatype msg =
    EXIT
  | JOBS
  | SUBMIT job
  | WAIT
  | DONE int int
  | FAILED int string
  | CANCEL "int option"

record master =
  queued :: "(int \<times> job) list"
  running :: "(int \<times> job) list"
  slots_available :: int
  slots_total :: int
  wait_mode :: bool
  current_id :: int
  response :: "reply list"

text \<open>
  \<^verbatim>\<open>_GridMaster.__init__\<close>; \<open>cpu_count\<close> is what
  \<^verbatim>\<open>multiprocessing.cpu_count()\<close> returns, and \<^verbatim>\<open>not cores\<close> holds of
  \<^verbatim>\<open>None\<close> and of 0.
\<close>

definition GridMaster :: "int \<Rightarrow> int option \<Rightarrow> master" where
  "GridMaster cpu_count cores =
     (let slots = (case cores of None \<Rightarrow> cpu_count
                   | Some c \<Rightarrow> if c = 0 then cpu_count else c)
      in \<lparr>queued = [], running = [], slots_available = slots, slots_total = slots,
          wait_mode = False, current_id = 0, response = []\<rparr>)"

definition next_id :: "master \<Rightarrow> int \<times> master" where
  "next_id s = (current_id s + 1, s\<lparr>current_id := current_id s + 1\<rparr>)"

text \<open>
  \<^verbatim>\<open>_update_dependencies\<close>: the job's id leaves the dependencies of its queued
  children; the \<^verbatim>\<open>KeyError\<close> of a set that does not hold it is caught and logged.
\<close>

definition discard_dependency :: "int \<Rightarrow> job \<Rightarrow> job" where
  "discard_dependency job_id child =
     (case set_remove job_id (dependencies child) of
        Inl e \<Rightarrow> child
      | Inr ds \<Rightarrow> child\<lparr>dependencies := ds\<rparr>)"

fun update_dependencies_loop :: "int \<Rightarrow> int list \<Rightarrow> master \<Rightarrow> master" where
  "update_dependencies_loop job_id [] s = s"
| "update_dependencies_loop job_id (c # cs) s =
     update_dependencies_loop job_id cs
       (case map_of (queued s) c of
          None \<Rightarrow> s
        | Some child \<Rightarrow>
            s\<lparr>queued := AList.update c (discard_dependency job_id child) (queued s)\<rparr>)"

definition update_dependencies :: "int \<Rightarrow> job \<Rightarrow> master \<Rightarrow> master" where
  "update_dependencies job_id job s = update_dependencies_loop job_id (children job) s"

text \<open>
  \<^verbatim>\<open>_remove_children\<close>: the loop over \<^verbatim>\<open>job.children\<close>, with the recursive
  call on each child that is still queued. A recursion that does not end is Python's
  \<^verbatim>\<open>RecursionError\<close>, and a \<^verbatim>\<open>del\<close> of a missing key its
  \<^verbatim>\<open>KeyError\<close>: both are the value \<open>None\<close>.
\<close>

definition del_queued :: "int \<Rightarrow> master \<Rightarrow> master option" where
  "del_queued c s =
     (if c \<in> fst ` set (queued s) then Some (s\<lparr>queued := AList.delete c (queued s)\<rparr>)
      else None)"

partial_function (option) remove_children_loop :: "int list \<Rightarrow> master \<Rightarrow> master option" where
  "remove_children_loop cs s =
     (case cs of
        [] \<Rightarrow> Some s
      | c # cs' \<Rightarrow>
          (case map_of (queued s) c of
             None \<Rightarrow> remove_children_loop cs' s
           | Some child \<Rightarrow>
               Option.bind (remove_children_loop (children child) s)
                 (\<lambda>s1. Option.bind (del_queued c (update_dependencies c child s1))
                   (\<lambda>s2. remove_children_loop cs' s2))))"

declare remove_children_loop.simps [code]

definition remove_children :: "job \<Rightarrow> master \<Rightarrow> master option" where
  "remove_children job s = remove_children_loop (children job) s"

text \<open>\<^verbatim>\<open>_run_job\<close>: the job gets its process and moves from queued to running.\<close>

definition run_job :: "int \<Rightarrow> job \<Rightarrow> master \<Rightarrow> master" where
  "run_job job_id job s =
     (if job_id \<notin> fst ` set (queued s) then s
      else s\<lparr>running := AList.update job_id (job\<lparr>process := True\<rparr>) (running s),
             queued := AList.delete job_id (queued s)\<rparr>)"

text \<open>
  \<^verbatim>\<open>schedule\<close>. The loop over the sorted jobs leaves at its first promotion, so it
  is the search for the job to promote: it stops at the first job with a dependency and
  passes over the jobs that do not fit.
\<close>

fun first_fit :: "(int \<times> job) list \<Rightarrow> int \<Rightarrow> (int \<times> job) option" where
  "first_fit [] avail = None"
| "first_fit ((job_id, job) # jobs) avail =
     (if len_set (dependencies job) > 0 then None
      else if threads job \<le> avail then Some (job_id, job)
      else first_fit jobs avail)"

lemma first_fit_mem: "first_fit jobs avail = Some x \<Longrightarrow> x \<in> set jobs"
  by (induction jobs avail rule: first_fit.induct) (auto split: if_splits)

lemma mset_insort_lt: "mset (insort_lt lt x xs) = add_mset x (mset xs)"
  by (induction xs) auto

lemma mset_py_sorted: "mset (py_sorted lt xs) = mset xs"
  by (induction xs) (auto simp: py_sorted_def mset_insort_lt)

lemma set_py_sorted: "set (py_sorted lt xs) = set xs"
  by (metis mset_py_sorted set_mset_mset)

lemma length_delete_less:
  "k \<in> fst ` set al \<Longrightarrow> length (AList.delete k al) < length al"
  by (auto simp: AList.delete_eq intro!: length_filter_less)

function schedule :: "master \<Rightarrow> master" where
  "schedule s =
     (case first_fit (py_sorted job_lt (queued s)) (slots_available s) of
        None \<Rightarrow> s
      | Some (job_id, job) \<Rightarrow>
          (let s1 = run_job job_id job s;
               s2 = s1\<lparr>slots_available := slots_available s1 - threads job\<rparr>
           in if slots_available s2 \<ge> 1 then schedule s2 else s2))"
  by pat_completeness auto
termination
proof (relation "measure (\<lambda>s. length (queued s))")
  show "wf (measure (\<lambda>s. length (queued s)))" by simp
next
  fix s :: master and x2 job_id job s1 s2
  assume ff: "first_fit (py_sorted job_lt (queued s)) (slots_available s) = Some x2"
    and x2: "(job_id, job) = x2"
    and s1: "s1 = run_job job_id job s"
    and s2: "s2 = s1\<lparr>slots_available := slots_available s1 - threads job\<rparr>"
  from ff x2 have "(job_id, job) \<in> set (queued s)"
    using first_fit_mem set_py_sorted by fastforce
  then have "job_id \<in> fst ` set (queued s)" by force
  then show "(s2, s) \<in> measure (\<lambda>s. length (queued s))"
    by (simp add: s1 s2 run_job_def length_delete_less)
qed

declare schedule.simps [simp del]

subsection \<open>The handlers\<close>

text \<open>
  A handler returns whether the loop goes on, with the new state, or the exception it
  raises. \<^verbatim>\<open>_handle_exit\<close> terminates and joins the process of every running job;
  a job without a process has no \<^verbatim>\<open>terminate\<close>.
\<close>

definition handle_exit :: "master \<Rightarrow> error + bool \<times> master" where
  "handle_exit s =
     (if list_all (\<lambda>(job_id, p). process p) (running s) then Inr (False, s)
      else Inl (AttributeError ''terminate''))"

definition handle_wait :: "master \<Rightarrow> error + bool \<times> master" where
  "handle_wait s = Inr (True, if \<not> wait_mode s then s\<lparr>wait_mode := True\<rparr> else s)"

definition handle_jobs :: "master \<Rightarrow> error + bool \<times> master" where
  "handle_jobs s =
     Inr (True, s\<lparr>response := response s @ [JobList (map fst (queued s) @ map fst (running s))]\<rparr>)"

text \<open>The loop of \<^verbatim>\<open>_handle_submit\<close> over the dependencies of the new job.\<close>

definition add_child :: "int \<Rightarrow> job \<Rightarrow> job" where
  "add_child job_id parent = parent\<lparr>children := set_add job_id (children parent)\<rparr>"

fun update_children :: "int \<Rightarrow> int list \<Rightarrow> master \<Rightarrow> master" where
  "update_children job_id [] s = s"
| "update_children job_id (d # ds) s =
     (let s1 = (case map_of (queued s) d of
                  None \<Rightarrow> s
                | Some parent \<Rightarrow>
                    s\<lparr>queued := AList.update d (add_child job_id parent) (queued s)\<rparr>);
          s2 = (case map_of (running s1) d of
                  None \<Rightarrow> s1
                | Some parent \<Rightarrow>
                    s1\<lparr>running := AList.update d (add_child job_id parent) (running s1)\<rparr>)
      in update_children job_id ds s2)"

definition handle_submit :: "job \<Rightarrow> master \<Rightarrow> error + bool \<times> master" where
  "handle_submit job0 s =
     (let (job_id, s1) = next_id s;
          job = job0\<lparr>stdout := resolve_log job_id (stdout job0),
                     stderr := resolve_log job_id (stderr job0)\<rparr>;
          s2 = s1\<lparr>queued := AList.update job_id job (queued s1)\<rparr>;
          s3 = update_children job_id (dependencies job) s2;
          s4 = s3\<lparr>response := response s3 @ [JobId job_id]\<rparr>
      in Inr (True, if slots_available s4 \<ge> 1 then schedule s4 else s4))"

definition cascade :: "job \<Rightarrow> master \<Rightarrow> error + master" where
  "cascade job s = (case remove_children job s of None \<Rightarrow> Inl RecursionError | Some s' \<Rightarrow> Inr s')"

definition handle_done :: "int \<Rightarrow> int \<Rightarrow> master \<Rightarrow> error + bool \<times> master" where
  "handle_done job_id state s =
     (case map_of (running s) job_id of
        None \<Rightarrow> Inr (True, s)
      | Some job \<Rightarrow>
          if \<not> process job then Inl (AttributeError ''join'')
          else
            (let job1 = job\<lparr>process := False\<rparr>;
                 s1 = s\<lparr>running := AList.update job_id job1 (running s)\<rparr>;
                 s2 = s1\<lparr>slots_available := slots_available s1 + threads job1\<rparr>;
                 s3 = update_dependencies job_id job1 s2
             in case (if state \<noteq> 0 then cascade job1 s3 else Inr s3) of
                  Inl e \<Rightarrow> Inl e
                | Inr s4 \<Rightarrow>
                    Inr (True, schedule (s4\<lparr>running := AList.delete job_id (running s4)\<rparr>))))"

text \<open>
  \<^verbatim>\<open>_handle_failed\<close> tests \<^verbatim>\<open>job_id in self.unning\<close>. The master has the
  attributes that \<^verbatim>\<open>__init__\<close> sets (\<^verbatim>\<open>requests\<close>, \<^verbatim>\<open>response\<close>,
  \<^verbatim>\<open>queued\<close>, \<^verbatim>\<open>running\<close>, \<^verbatim>\<open>slots_available\<close>,
  \<^verbatim>\<open>slots_total\<close>, \<^verbatim>\<open>log\<close>, \<^verbatim>\<open>wait_mode\<close>, \<^verbatim>\<open>_current_id\<close>)
  and no other, so reading \<^verbatim>\<open>unning\<close> raises.
\<close>

definition unning :: "master \<Rightarrow> error + (int \<times> job) list" where
  "unning s = Inl (AttributeError ''unning'')"

text \<open>The handler from the membership test on, for the dictionary that the read gave.\<close>

definition handle_failed_in ::
  "(int \<times> job) list \<Rightarrow> int \<Rightarrow> string \<Rightarrow> master \<Rightarrow> error + bool \<times> master" where
  "handle_failed_in jobs job_id err s =
     (if job_id \<in> fst ` set jobs then
        (case map_of (running s) job_id of
           None \<Rightarrow> Inl KeyError
         | Some job \<Rightarrow>
             (let job1 = job\<lparr>process := False\<rparr>;
                  s1 = s\<lparr>running := AList.update job_id job1 (running s)\<rparr>;
                  s2 = update_dependencies job_id job1 s1
              in case cascade job1 s2 of
                   Inl e \<Rightarrow> Inl e
                 | Inr s3 \<Rightarrow>
                     (let s4 = s3\<lparr>slots_available := slots_available s3 + threads job1\<rparr>
                      in Inr (True, schedule (s4\<lparr>running := AList.delete job_id (running s4)\<rparr>)))))
      else Inr (True, s))"

definition handle_failed :: "int \<Rightarrow> string \<Rightarrow> master \<Rightarrow> error + bool \<times> master" where
  "handle_failed job_id err s =
     (case unning s of
        Inl e \<Rightarrow> Inl e
      | Inr jobs \<Rightarrow> handle_failed_in jobs job_id err s)"

definition handle_cancel :: "int \<Rightarrow> master \<Rightarrow> error + bool \<times> master" where
  "handle_cancel job_id s =
     (let (found, s1) =
            (case map_of (running s) job_id of
               Some job \<Rightarrow>
                 if \<not> process job then (Inl (AttributeError ''terminate''), s)
                 else
                   (let job1 = job\<lparr>process := False\<rparr>
                    in (Inr (Some job1),
                        s\<lparr>slots_available := slots_available s + threads job1,
                          running := AList.delete job_id (running s)\<rparr>))
             | None \<Rightarrow>
                 (case map_of (queued s) job_id of
                    Some job \<Rightarrow> (Inr (Some job), s\<lparr>queued := AList.delete job_id (queued s)\<rparr>)
                  | None \<Rightarrow> (Inr None, s)))
      in case found of
           Inl e \<Rightarrow> Inl e
         | Inr None \<Rightarrow> Inr (True, s1)
         | Inr (Some job) \<Rightarrow>
             (case cascade job (update_dependencies job_id job s1) of
                Inl e \<Rightarrow> Inl e
              | Inr s2 \<Rightarrow> Inr (True, schedule s2)))"

text \<open>
  The dispatch of \<^verbatim>\<open>start\<close>: the handler of the message's command. The client
  sends the \<^verbatim>\<open>job_id\<close> of its job with \<^verbatim>\<open>CANCEL\<close>, which is
  \<^verbatim>\<open>None\<close> for a job that was never submitted; \<^verbatim>\<open>int(None)\<close> raises.
\<close>

fun handle :: "msg \<Rightarrow> master \<Rightarrow> error + bool \<times> master" where
  "handle EXIT s = handle_exit s"
| "handle JOBS s = handle_jobs s"
| "handle (SUBMIT job) s = handle_submit job s"
| "handle WAIT s = handle_wait s"
| "handle (DONE job_id state) s = handle_done job_id state s"
| "handle (FAILED job_id err) s = handle_failed job_id err s"
| "handle (CANCEL None) s = Inl TypeError"
| "handle (CANCEL (Some job_id)) s = handle_cancel job_id s"

subsection \<open>The master loop\<close>

text \<open>
  \<^verbatim>\<open>start\<close> reads the request queue until it leaves the loop. The model runs it
  on the messages that are in the queue and returns how the loop ends, with the messages
  it has not read: \<open>Drained\<close> at the test of the wait mode, \<open>Stopped\<close> when a
  handler returns false, \<open>Crashed\<close> when a handler raises (the master process ends,
  its state is lost), and \<open>Blocked\<close> in \<^verbatim>\<open>requests.get()\<close> when the queue is
  empty.
\<close>

datatype loop_end = Drained master | Stopped master | Crashed error | Blocked master

definition num_jobs :: "master \<Rightarrow> nat" where
  "num_jobs s = length (queued s) + length (running s)"

fun start :: "msg list \<Rightarrow> master \<Rightarrow> loop_end \<times> msg list" where
  "start msgs s =
     (if wait_mode s \<and> num_jobs s = 0 then (Drained s, msgs)
      else
        (case msgs of
           [] \<Rightarrow> (Blocked s, [])
         | m # rest \<Rightarrow>
             (case handle m s of
                Inl e \<Rightarrow> (Crashed e, rest)
              | Inr (True, s') \<Rightarrow> start rest s'
              | Inr (False, s') \<Rightarrow> (Stopped s', rest))))"

declare start.simps [simp del]

definition create_master :: "int \<Rightarrow> msg list \<Rightarrow> loop_end \<times> msg list" where
  "create_master cpu_count msgs = start msgs (GridMaster cpu_count None)"

subsection \<open>The executor\<close>

text \<open>
  \<^verbatim>\<open>_terminate_process\<close>, called by the executor's signal handler with the value of
  \<^verbatim>\<open>process\<close>: \<^verbatim>\<open>None\<close>, or the \<^verbatim>\<open>subprocess.Popen\<close> object of
  the command. What the calls on that object do is the environment's:
  \<open>signalled\<close> says whether \<^verbatim>\<open>send_signal\<close> returns (it raises
  \<^verbatim>\<open>OSError\<close> when the operating system no longer knows the process), and
  \<open>alive n\<close> whether the \<open>n\<close>-th \<^verbatim>\<open>poll()\<close> finds the command running.
  When every probe finds it running, the function reads \<^verbatim>\<open>process._popen\<close>,
  which a \<^verbatim>\<open>Popen\<close> object does not have. The sleeps are in milliseconds.
\<close>

definition sleeps :: "nat list" where
  "sleeps = [10, 10, 10, 20, 20, 20, 20, 20, 20, 100, 1000, 2000, 5000]"

fun probe :: "nat list \<Rightarrow> (nat \<Rightarrow> bool) \<Rightarrow> nat \<Rightarrow> bool" where
  "probe [] alive n = False"
| "probe (t # ts) alive n = (if \<not> alive n then True else probe ts alive (Suc n))"

definition terminate_process :: "bool \<Rightarrow> bool \<Rightarrow> (nat \<Rightarrow> bool) \<Rightarrow> error + unit" where
  "terminate_process has_process signalled alive =
     (if has_process then
        (if \<not> signalled then Inl OSError
         else if alive 0 then
           (if probe sleeps alive 1 then Inr () else Inl (AttributeError ''_popen''))
         else Inr ())
      else Inr ())"

fun str_error :: "error \<Rightarrow> string" where
  "str_error (SubmissionError m) = m"
| "str_error (AttributeError a) = ''no attribute '' @ a"
| "str_error KeyError = ''KeyError''"
| "str_error TypeError = ''TypeError''"
| "str_error RecursionError = ''RecursionError''"
| "str_error OSError = ''OSError''"

text \<open>
  \<^verbatim>\<open>handle_term\<close> terminates the command, puts its notice and leaves with
  \<^verbatim>\<open>sys.exit(1)\<close>, which no \<^verbatim>\<open>except Exception\<close> catches, so that
  nothing is put after it. What \<^verbatim>\<open>_terminate_process\<close> raises leaves the handler
  before the notice is put, and reaches the code that the signal interrupted.
\<close>

definition handle_term :: "int \<Rightarrow> bool \<Rightarrow> bool \<Rightarrow> (nat \<Rightarrow> bool) \<Rightarrow> error + msg list" where
  "handle_term job_id has_process signalled alive =
     (case terminate_process has_process signalled alive of
        Inl e \<Rightarrow> Inl e
      | Inr u \<Rightarrow> Inr [DONE job_id 1])"

text \<open>
  What the \<^verbatim>\<open>try\<close> block of \<^verbatim>\<open>_execute_job\<close> does when no signal
  interrupts it: \<^verbatim>\<open>process.wait()\<close> returns the exit code, or a statement of the
  block raises, before the command was launched (opening the log files, launching) or
  after (waiting); the flag of \<open>Raises\<close> says whether \<^verbatim>\<open>process\<close> was assigned.
  From there on the function puts \<open>after_try\<close>: the \<^verbatim>\<open>except\<close> clause puts
  the failure notice and does not return, and the last statement puts the completion
  notice with \<^verbatim>\<open>result\<close>, which is still the initial -1 when the block raised.
\<close>

datatype attempt = Returns int | Raises string bool

fun launched :: "attempt \<Rightarrow> bool" where
  "launched (Returns result) = True"
| "launched (Raises err l) = l"

fun after_try :: "int \<Rightarrow> attempt \<Rightarrow> msg list" where
  "after_try job_id (Returns result) = [DONE job_id result]"
| "after_try job_id (Raises err l) = [FAILED job_id err, DONE job_id (- 1)]"

text \<open>
  How far the \<^verbatim>\<open>try\<close> block is when a signal arrives in it: \<^verbatim>\<open>process\<close>
  is still \<^verbatim>\<open>None\<close>; or the command is launched and \<^verbatim>\<open>result\<close> is still
  -1; or \<^verbatim>\<open>result\<close> holds the exit code and the block is not left yet.
\<close>

datatype progress = Opening | Waiting | Waited int

fun result_of :: "progress \<Rightarrow> int" where
  "result_of Opening = - 1"
| "result_of Waiting = - 1"
| "result_of (Waited code) = code"

text \<open>
  The moment at which \<^verbatim>\<open>SIGTERM\<close> is delivered to the executor:
  \<^item> \<open>Before_handler\<close>: before \<^verbatim>\<open>signal.signal\<close> has installed
    \<^verbatim>\<open>handle_term\<close>. The module installs no other handler, and the default action
    of the signal ends the process.
  \<^item> \<open>Before_try\<close>: between the installation and the \<^verbatim>\<open>try\<close> block;
    \<^verbatim>\<open>process\<close> is \<^verbatim>\<open>None\<close>.
  \<^item> \<open>In_try p\<close>: in the \<^verbatim>\<open>try\<close> block, at progress \<open>p\<close>.
  \<^item> \<open>After a k\<close>: the \<^verbatim>\<open>try\<close> block has ended as \<open>a\<close>, and \<open>k\<close> of
    the messages that follow it are put: \<open>k = 0\<close> is in the \<^verbatim>\<open>except\<close> clause
    before its notice, or after the block before the completion notice; \<open>k\<close> at least
    the number of those messages is after the last statement of the function.
\<close>

datatype moment = Before_handler | Before_try | In_try progress | After attempt nat

fun handled :: "moment \<Rightarrow> bool" where
  "handled Before_handler = False"
| "handled m = True"

fun has_process :: "moment \<Rightarrow> bool" where
  "has_process Before_handler = False"
| "has_process Before_try = False"
| "has_process (In_try p) = (p \<noteq> Opening)"
| "has_process (After a k) = launched a"

fun sent_before :: "int \<Rightarrow> moment \<Rightarrow> msg list" where
  "sent_before job_id (After a k) = take k (after_try job_id a)"
| "sent_before job_id m = []"

text \<open>
  An exception that leaves the handler: in the \<^verbatim>\<open>try\<close> block the
  \<^verbatim>\<open>except\<close> clause catches it, and the function goes on as after any fault of
  the block, with the \<^verbatim>\<open>result\<close> of that moment; anywhere else nothing catches it,
  the function is left and nothing more is put.
\<close>

fun caught :: "int \<Rightarrow> moment \<Rightarrow> error \<Rightarrow> msg list" where
  "caught job_id (In_try p) e = [FAILED job_id (str_error e), DONE job_id (result_of p)]"
| "caught job_id m e = []"

text \<open>
  An execution of \<^verbatim>\<open>_execute_job\<close>: no signal is delivered, or one is, at a
  moment and with an environment of \<^verbatim>\<open>_terminate_process\<close>. \<open>execute_job\<close> is the
  list of the messages that the execution puts on the request queue, in order.
\<close>

datatype execution = Undisturbed attempt | Signalled moment bool "nat \<Rightarrow> bool"

fun execute_job :: "int \<Rightarrow> execution \<Rightarrow> msg list" where
  "execute_job job_id (Undisturbed a) = after_try job_id a"
| "execute_job job_id (Signalled m signalled alive) =
     (if handled m then
        sent_before job_id m @
        (case handle_term job_id (has_process m) signalled alive of
           Inr sent \<Rightarrow> sent
         | Inl e \<Rightarrow> caught job_id m e)
      else [])"

fun notice_for :: "int \<Rightarrow> msg \<Rightarrow> bool" where
  "notice_for job_id (DONE i state) = (i = job_id)"
| "notice_for job_id (FAILED i err) = (i = job_id)"
| "notice_for job_id m = False"

definition notices :: "int \<Rightarrow> msg list \<Rightarrow> nat" where
  "notices job_id msgs = length (filter (notice_for job_id) msgs)"

subsection \<open>\<^verbatim>\<open>LocalCluster\<close>\<close>


text \<open>What \<^verbatim>\<open>submit\<close> and \<^verbatim>\<open>cancel\<close> read of the caller's job.\<close>

record client_job =
  job_working_directory :: "string option"
  job_stdout :: "string option"
  job_stderr :: "string option"
  job_dependencies :: "int option list"
  cluster_command :: string
  job_threads :: int
  job_id :: "int option"









definition cluster_resolve_log :: "client_job \<Rightarrow> string option \<Rightarrow> string option" where
  "cluster_resolve_log job path =
     (case path of
        None \<Rightarrow> None
      | Some p \<Rightarrow>
          Some (replace_J (case job_id job of None \<Rightarrow> ''None'' | Some i \<Rightarrow> str_int i) p))"


section \<open>Vocabulary of the properties\<close>

subsection \<open>The reference scheduler\<close>

text \<open>
  The scheduler as the specification words it: after a promotion the whole pass starts
  again, with no test of the slots that are left, and it is run after every submit.
\<close>

function schedule_ref :: "master \<Rightarrow> master" where
  "schedule_ref s =
     (case first_fit (py_sorted job_lt (queued s)) (slots_available s) of
        None \<Rightarrow> s
      | Some (i, job) \<Rightarrow>
          (let s1 = run_job i job s;
               s2 = s1\<lparr>slots_available := slots_available s1 - threads job\<rparr>
           in schedule_ref s2))"
  by pat_completeness auto
termination
proof (relation "measure (\<lambda>s. length (queued s))")
  show "wf (measure (\<lambda>s. length (queued s)))" by simp
next
  fix s :: master and x2 i job s1 s2
  assume ff: "first_fit (py_sorted job_lt (queued s)) (slots_available s) = Some x2"
    and x2: "(i, job) = x2"
    and s1: "s1 = run_job i job s"
    and s2: "s2 = s1\<lparr>slots_available := slots_available s1 - threads job\<rparr>"
  from ff x2 have "(i, job) \<in> set (queued s)"
    using first_fit_mem set_py_sorted by fastforce
  then have "i \<in> fst ` set (queued s)" by force
  then show "(s2, s) \<in> measure (\<lambda>s. length (queued s))"
    by (simp add: s1 s2 run_job_def length_delete_less)
qed

declare schedule_ref.simps [simp del]

definition handle_submit_ref :: "job \<Rightarrow> master \<Rightarrow> error + bool \<times> master" where
  "handle_submit_ref job0 s =
     (let (n, s1) = next_id s;
          job = job0\<lparr>stdout := resolve_log n (stdout job0),
                     stderr := resolve_log n (stderr job0)\<rparr>;
          s2 = s1\<lparr>queued := AList.update n job (queued s1)\<rparr>;
          s3 = update_children n (dependencies job) s2;
          s4 = s3\<lparr>response := response s3 @ [JobId n]\<rparr>
      in Inr (True, schedule_ref s4))"

subsection \<open>Jobs, slots and reachable states\<close>


text \<open>One promotion of \<^verbatim>\<open>schedule\<close>: the job runs and its slots are taken.\<close>

definition promote :: "int \<Rightarrow> job \<Rightarrow> master \<Rightarrow> master" where
  "promote i j s = (run_job i j s)\<lparr>slots_available := slots_available (run_job i j s) - threads j\<rparr>"

definition ids :: "(int \<times> job) list \<Rightarrow> int set" where
  "ids d = fst ` set d"

definition threads_of :: "(int \<times> job) list \<Rightarrow> int" where
  "threads_of d = sum_list (map (\<lambda>(i, j). threads j) d)"

definition running_threads :: "master \<Rightarrow> int" where
  "running_threads s = threads_of (running s)"

text \<open>The job with an id, queued or running.\<close>

definition find_job :: "master \<Rightarrow> int \<Rightarrow> job option" where
  "find_job s i = (case map_of (queued s) i of Some j \<Rightarrow> Some j | None \<Rightarrow> map_of (running s) i)"

text \<open>
  The states of the master between two messages: the state that
  \<^verbatim>\<open>create_master\<close> builds, and every state that a handler returns from such a
  state. \<open>P s job\<close> is what is assumed of a job submitted in state \<open>s\<close>.
\<close>

inductive reachable :: "(master \<Rightarrow> job \<Rightarrow> bool) \<Rightarrow> int \<Rightarrow> master \<Rightarrow> bool"
  for P cpu_count where
  init: "reachable P cpu_count (GridMaster cpu_count None)"
| step: "reachable P cpu_count s \<Longrightarrow> (\<forall>job. m = SUBMIT job \<longrightarrow> P s job) \<Longrightarrow>
         handle m s = Inr (go, s') \<Longrightarrow> reachable P cpu_count s'"

text \<open>The maps are dictionaries with ids that were assigned, and the slots add up.\<close>

definition consistent :: "master \<Rightarrow> bool" where
  "consistent s \<longleftrightarrow>
     distinct (map fst (queued s)) \<and> distinct (map fst (running s))
     \<and> ids (queued s) \<inter> ids (running s) = {}
     \<and> (\<forall>k \<in> ids (queued s) \<union> ids (running s). k \<le> current_id s)
     \<and> slots_available s + running_threads s = slots_total s"

definition nonneg :: "master \<Rightarrow> bool" where
  "nonneg s \<longleftrightarrow>
     0 \<le> slots_available s
     \<and> list_all (\<lambda>(i, j). 0 \<le> threads j) (queued s)
     \<and> list_all (\<lambda>(i, j). 0 \<le> threads j) (running s)"

text \<open>Every running job holds its process.\<close>

definition with_process :: "master \<Rightarrow> bool" where
  "with_process s \<longleftrightarrow> list_all (\<lambda>(i, j). process j) (running s)"

subsection \<open>Dictionaries that change in place\<close>

text \<open>A function applied to the jobs under some keys, and a dictionary without some keys.\<close>

definition on_keys :: "int set \<Rightarrow> (job \<Rightarrow> job) \<Rightarrow> (int \<times> job) list \<Rightarrow> (int \<times> job) list" where
  "on_keys K f al = map (\<lambda>(k, j). (k, if k \<in> K then f j else j)) al"

definition without :: "int set \<Rightarrow> (int \<times> job) list \<Rightarrow> (int \<times> job) list" where
  "without K al = filter (\<lambda>(k, j). k \<notin> K) al"

text \<open>
  The queue after job \<open>i\<close> ended: its id has left the dependencies of its children, and
  the jobs with a key in \<open>K\<close> are gone.
\<close>

definition released :: "int \<Rightarrow> job \<Rightarrow> int set \<Rightarrow> master \<Rightarrow> master" where
  "released i job K s =
     s\<lparr>queued := without K (on_keys (set (children job)) (discard_dependency i) (queued s))\<rparr>"

text \<open>The state of \<^verbatim>\<open>_handle_submit\<close> before it calls the scheduler.\<close>

definition entered :: "job \<Rightarrow> master \<Rightarrow> master" where
  "entered job s =
     (let n = current_id s + 1;
          job' = job\<lparr>stdout := resolve_log n (stdout job), stderr := resolve_log n (stderr job)\<rparr>
      in s\<lparr>current_id := n,
           queued := on_keys (set (dependencies job)) (add_child n) (queued s @ [(n, job')]),
           running := on_keys (set (dependencies job)) (add_child n) (running s),
           response := response s @ [JobId n]\<rparr>)"

subsection \<open>Edges and descendants\<close>

text \<open>The two sets of a job that hold the edges of the dependency graph.\<close>

definition edges :: "job \<Rightarrow> int list \<times> int list" where
  "edges j = (dependencies j, children j)"

text \<open>
  The transitive descendants of the jobs \<open>cs\<close>: the ids in \<open>cs\<close>, and the children
  of every descendant that is still a job of the master.
\<close>

inductive_set descendants :: "master \<Rightarrow> int list \<Rightarrow> int set" for s cs where
  child: "c \<in> set cs \<Longrightarrow> c \<in> descendants s cs"
| later: "p \<in> descendants s cs \<Longrightarrow> find_job s p = Some j \<Longrightarrow> c \<in> set (children j) \<Longrightarrow>
          c \<in> descendants s cs"

text \<open>The descendants that are found through queued jobs alone.\<close>

inductive_set qdesc :: "(int \<times> job) list \<Rightarrow> int list \<Rightarrow> int set" for q cs where
  child: "c \<in> set cs \<Longrightarrow> c \<in> qdesc q cs"
| later: "p \<in> qdesc q cs \<Longrightarrow> map_of q p = Some j \<Longrightarrow> c \<in> set (children j) \<Longrightarrow> c \<in> qdesc q cs"

text \<open>
  A child was submitted after its parent, so its id is the larger one; and a job that
  still has a parent does not run.
\<close>

definition children_later :: "(int \<times> job) list \<Rightarrow> bool" where
  "children_later q \<longleftrightarrow> (\<forall>(i, j) \<in> set q. \<forall>c \<in> set (children j). i < c)"

definition no_running_child :: "master \<Rightarrow> int list \<Rightarrow> bool" where
  "no_running_child s cs \<longleftrightarrow> set cs \<inter> ids (running s) = {}"

text \<open>
  An edge from job \<open>i\<close> to its child \<open>c\<close>: the child has an assigned id, does not
  run, and while it is queued it names \<open>i\<close> in its dependencies. In a linked state every
  edge of a queued or running job is such an edge.
\<close>

definition edge_ok :: "master \<Rightarrow> int \<Rightarrow> int \<Rightarrow> bool" where
  "edge_ok s i c \<longleftrightarrow>
     c \<le> current_id s \<and> c \<notin> ids (running s)
     \<and> (\<forall>B. map_of (queued s) c = Some B \<longrightarrow> i \<in> set (dependencies B))"

definition linked :: "master \<Rightarrow> bool" where
  "linked s \<longleftrightarrow>
     children_later (queued s)
     \<and> (\<forall>(i, j) \<in> set (queued s) \<union> set (running s). \<forall>c \<in> set (children j). edge_ok s i c)"

text \<open>
  A job as \<^verbatim>\<open>LocalCluster.submit\<close> builds it from jobs that this master has
  numbered: it has no children yet, and its dependencies are ids that were assigned.
\<close>

definition names_earlier_jobs :: "master \<Rightarrow> job \<Rightarrow> bool" where
  "names_earlier_jobs s job \<longleftrightarrow>
     children job = [] \<and> (\<forall>d \<in> set (dependencies job). d \<le> current_id s)"

subsection \<open>Example states\<close>

text \<open>
  Job A needs one slot and depends on nothing; job B depends on job 1. Submitted in this
  order to a master with one slot, A runs and B waits for it.
\<close>

definition job_A :: job where
  "job_A = new_Job ''true'' ''/tmp'' (Some ''/tmp/jip-%J.out'') (Some ''/tmp/jip-%J.err'') [] 1"

definition job_B :: job where
  "job_B = new_Job ''true'' ''/tmp'' (Some ''/tmp/jip-%J.out'') (Some ''/tmp/jip-%J.err'') [1] 1"

definition master_AB :: master where
  "master_AB =
     \<lparr>queued = [(2, job_B\<lparr>stdout := Some ''/tmp/jip-2.out'', stderr := Some ''/tmp/jip-2.err''\<rparr>)],
      running = [(1, job_A\<lparr>stdout := Some ''/tmp/jip-1.out'', stderr := Some ''/tmp/jip-1.err'',
                           children := [2], process := True\<rparr>)],
      slots_available = 0, slots_total = 1, wait_mode = False, current_id = 2,
      response = [JobId 1, JobId 2]\<rparr>"


text \<open>Both jobs queued and the slot free: what the scheduler finds when job 1 may start.\<close>

definition master_idle :: master where
  "master_idle =
     \<lparr>queued = [(1, job_A), (2, job_B)], running = [],
      slots_available = 1, slots_total = 1, wait_mode = False, current_id = 2,
      response = [JobId 1, JobId 2]\<rparr>"

text \<open>
  Jobs C and D: C depends on nothing, D depends on job 2. After A, B, C and D were
  submitted to a master with one slot, A runs, B waits for A, D waits for B, and C waits
  for a slot.
\<close>

definition job_C :: job where
  "job_C = new_Job ''true'' ''/tmp'' (Some ''/tmp/jip-%J.out'') (Some ''/tmp/jip-%J.err'') [] 1"

definition job_D :: job where
  "job_D = new_Job ''true'' ''/tmp'' (Some ''/tmp/jip-%J.out'') (Some ''/tmp/jip-%J.err'') [2] 1"

definition master_A :: master where
  "master_A =
     \<lparr>queued = [],
      running = [(1, job_A\<lparr>stdout := Some ''/tmp/jip-1.out'', stderr := Some ''/tmp/jip-1.err'',
                           process := True\<rparr>)],
      slots_available = 0, slots_total = 1, wait_mode = False, current_id = 1,
      response = [JobId 1]\<rparr>"

definition master_ABCD :: master where
  "master_ABCD =
     \<lparr>queued =
        [(2, job_B\<lparr>stdout := Some ''/tmp/jip-2.out'', stderr := Some ''/tmp/jip-2.err'',
                   children := [4]\<rparr>),
         (3, job_C\<lparr>stdout := Some ''/tmp/jip-3.out'', stderr := Some ''/tmp/jip-3.err''\<rparr>),
         (4, job_D\<lparr>stdout := Some ''/tmp/jip-4.out'', stderr := Some ''/tmp/jip-4.err''\<rparr>)],
      running = [(1, job_A\<lparr>stdout := Some ''/tmp/jip-1.out'', stderr := Some ''/tmp/jip-1.err'',
                           children := [2], process := True\<rparr>)],
      slots_available = 0, slots_total = 1, wait_mode = False, current_id = 4,
      response = [JobId 1, JobId 2, JobId 3, JobId 4]\<rparr>"

section \<open>Properties\<close>

subsection \<open>The loop\<close>

lemma start_drained:
  "wait_mode s \<Longrightarrow> num_jobs s = 0 \<Longrightarrow> start msgs s = (Drained s, msgs)"
  by (subst start.simps) simp

lemma start_Nil:
  assumes "\<not> (wait_mode s \<and> num_jobs s = 0)"
  shows "start [] s = (Blocked s, [])"
  using assms by (subst start.simps) (simp only: if_False list.case)

lemma start_Cons:
  assumes "\<not> (wait_mode s \<and> num_jobs s = 0)"
  shows "start (m # rest) s =
     (case handle m s of
        Inl e \<Rightarrow> (Crashed e, rest)
      | Inr (True, s') \<Rightarrow> start rest s'
      | Inr (False, s') \<Rightarrow> (Stopped s', rest))"
  using assms by (subst start.simps) (simp only: if_False list.case)

lemma start_never_blocks_drained:
  "start msgs s = (Blocked s', rest) \<Longrightarrow> \<not> (wait_mode s' \<and> num_jobs s' = 0)"
proof (induction msgs arbitrary: s)
  case Nil
  show ?case
  proof (cases "wait_mode s \<and> num_jobs s = 0")
    case True
    with Nil show ?thesis by (simp add: start_drained)
  next
    case False
    with Nil start_Nil[OF False] show ?thesis by simp
  qed
next
  case (Cons m msgs)
  show ?case
  proof (cases "wait_mode s \<and> num_jobs s = 0")
    case True
    with Cons.prems show ?thesis by (simp add: start_drained)
  next
    case False
    from Cons.prems have
      "(case handle m s of Inl e \<Rightarrow> (Crashed e, msgs)
        | Inr (True, s') \<Rightarrow> start msgs s'
        | Inr (False, s') \<Rightarrow> (Stopped s', msgs)) = (Blocked s', rest)"
      unfolding start_Cons[OF False] .
    then obtain s1 where "start msgs s1 = (Blocked s', rest)"
      by (auto split: sum.splits prod.splits bool.splits)
    then show ?thesis by (rule Cons.IH)
  qed
qed

lemma master_AB_reached:
  "create_master 1 [SUBMIT job_A, SUBMIT job_B] = (Blocked master_AB, [])"
  by code_simp

subsection \<open>Failure notices\<close>

lemma handle_failed_raises: "handle_failed i err s = Inl (AttributeError ''unning'')"
  by (simp add: handle_failed_def unning_def)

lemma stale_done_ignored:
  "map_of (running s) i = None \<Longrightarrow> handle (DONE i state) s = Inr (True, s)"
  by (simp add: handle_done_def)

lemma stale_cancel_ignored:
  "map_of (running s) i = None \<Longrightarrow> map_of (queued s) i = None \<Longrightarrow>
   handle (CANCEL (Some i)) s = Inr (True, s)"
  by (simp add: handle_cancel_def)

text \<open>
  C1. A failure notice for a running job should do what a completion notice with a
  nonzero code does: give the slot back, remove the queued descendants, remove the job
  and schedule. In \<open>master_AB\<close> job 1 runs and job 2 waits for it. The completion
  notice with code 1 empties both maps and frees the slot; the failure notice raises in
  its first test, changes nothing, and ends the loop.
\<close>

theorem failed_of_running_job_raises:
  "map_of (running master_AB) 1 \<noteq> None
   \<and> handle (DONE 1 1) master_AB =
       Inr (True, master_AB\<lparr>queued := [], running := [], slots_available := 1\<rparr>)
   \<and> handle (FAILED 1 ''No such file'') master_AB = Inl (AttributeError ''unning'')
   \<and> start [FAILED 1 ''No such file'', JOBS] master_AB
       = (Crashed (AttributeError ''unning''), [JOBS])"
  by code_simp

text \<open>
  C2. A notice for a job that the handler does not find should be ignored, and the loop
  should read the next message. In \<open>master_AB\<close> no job has the id 7. After a stale
  completion notice or a stale cancellation the loop answers the next message from the
  unchanged maps; after a stale failure notice it has ended and the next message is not
  read.
\<close>

theorem stale_failed_ends_loop:
  "map_of (running master_AB) 7 = None \<and> map_of (queued master_AB) 7 = None
   \<and> start [DONE 7 0, JOBS] master_AB
       = (Blocked (master_AB\<lparr>response := response master_AB @ [JobList [2, 1]]\<rparr>), [])
   \<and> start [CANCEL (Some 7), JOBS] master_AB
       = (Blocked (master_AB\<lparr>response := response master_AB @ [JobList [2, 1]]\<rparr>), [])
   \<and> start [FAILED 7 ''late'', JOBS] master_AB = (Crashed (AttributeError ''unning''), [JOBS])"
  by code_simp

subsection \<open>The executor's notices\<close>

lemma probe_iff: "probe ts alive n \<longleftrightarrow> (\<exists>k<length ts. \<not> alive (n + k))"
proof (induction ts arbitrary: n)
  case Nil
  show ?case by simp
next
  case (Cons t ts)
  have "(\<exists>k<Suc (length ts). \<not> alive (n + k))
        \<longleftrightarrow> \<not> alive n \<or> (\<exists>k<length ts. \<not> alive (Suc n + k))"
  proof
    assume "\<exists>k<Suc (length ts). \<not> alive (n + k)"
    then obtain k where k: "k < Suc (length ts)" "\<not> alive (n + k)" by blast
    show "\<not> alive n \<or> (\<exists>k<length ts. \<not> alive (Suc n + k))"
    proof (cases k)
      case 0
      with k show ?thesis by simp
    next
      case (Suc j)
      with k show ?thesis by auto
    qed
  next
    assume "\<not> alive n \<or> (\<exists>k<length ts. \<not> alive (Suc n + k))"
    then show "\<exists>k<Suc (length ts). \<not> alive (n + k)"
    proof
      assume "\<not> alive n"
      then show ?thesis by (intro exI[of _ 0]) simp
    next
      assume "\<exists>k<length ts. \<not> alive (Suc n + k)"
      then obtain k where "k < length ts" "\<not> alive (Suc n + k)" by blast
      then show ?thesis by (intro exI[of _ "Suc k"]) simp
    qed
  qed
  with Cons.IH[of "Suc n"] show ?case by simp
qed

text \<open>
  \<^verbatim>\<open>_terminate_process\<close> returns exactly when there is no process to terminate, or
  \<^verbatim>\<open>send_signal\<close> returns and one of the fourteen probes finds the command gone.
\<close>

lemma terminate_process_returns:
  "terminate_process p signalled alive = Inr ()
   \<longleftrightarrow> (p \<longrightarrow> signalled \<and> (\<exists>n\<le>13. \<not> alive n))"
proof -
  have "(\<exists>n\<le>13. \<not> alive n) \<longleftrightarrow> \<not> alive 0 \<or> (\<exists>k<13. \<not> alive (1 + k))"
  proof
    assume "\<exists>n\<le>13. \<not> alive n"
    then obtain n where n: "n \<le> 13" "\<not> alive n" by blast
    show "\<not> alive 0 \<or> (\<exists>k<13. \<not> alive (1 + k))"
    proof (cases n)
      case 0
      with n show ?thesis by simp
    next
      case (Suc j)
      with n show ?thesis by (intro disjI2 exI[of _ j]) simp
    qed
  next
    assume "\<not> alive 0 \<or> (\<exists>k<13. \<not> alive (1 + k))"
    then show "\<exists>n\<le>13. \<not> alive n"
    proof
      assume "\<not> alive 0"
      then show ?thesis by (intro exI[of _ 0]) simp
    next
      assume "\<exists>k<13. \<not> alive (1 + k)"
      then obtain k where "k < 13" "\<not> alive (1 + k)" by blast
      then show ?thesis by (intro exI[of _ "1 + k"]) simp
    qed
  qed
  moreover have "length sleeps = 13" by (simp add: sleeps_def)
  ultimately show ?thesis by (simp add: terminate_process_def probe_iff)
qed

lemma after_try_notices: "list_all (notice_for i) (after_try i a)"
  by (cases a) simp_all

lemma sent_before_notices: "list_all (notice_for i) (sent_before i m)"
proof (cases m)
  case (After a k)
  have "set (take k (after_try i a)) \<subseteq> set (after_try i a)" by (rule set_take_subset)
  with after_try_notices[of i a] After show ?thesis by (auto simp: list_all_iff)
qed simp_all

lemma caught_notices: "list_all (notice_for i) (caught i m e)"
  by (cases m) simp_all

lemma execute_job_notices: "list_all (notice_for i) (execute_job i x)"
proof (cases x)
  case (Undisturbed a)
  then show ?thesis by (simp add: after_try_notices)
next
  case (Signalled m signalled alive)
  then show ?thesis
    using sent_before_notices[of i m] caught_notices[of i m]
    by (auto simp: handle_term_def split: sum.splits)
qed

text \<open>
  C8, as the claim states it, fails: when the \<^verbatim>\<open>try\<close> block raises, the executor
  sends the failure notice and then, after the \<^verbatim>\<open>except\<close> clause, the completion
  notice with the initial result -1.
\<close>

theorem executor_fault_sends_two:
  "notices 1 (execute_job 1 (Undisturbed (Raises ''No such file or directory'' False))) \<noteq> 1"
  by (simp add: notices_def)

text \<open>
  C8, amended. Every message of the executor is a completion or failure notice for its
  job. An execution that no termination signal interrupts sends one notice on a normal
  exit, the completion with the exit code, and two on a fault in the \<^verbatim>\<open>try\<close>
  block: the failure, then the completion with code -1. A termination signal delivered
  before the handler is installed ends the executor without a notice. Delivered later,
  with \<^verbatim>\<open>_terminate_process\<close> returning, it makes the executor send the completion
  with code 1 after the notices that it had sent, and nothing more. That is one notice,
  the completion with code 1, when the signal arrives before the first notice is put:
  before the \<^verbatim>\<open>try\<close> block, in it, or after it with nothing put yet. It is the
  notices of the uninterrupted execution and then the completion with code 1 when the
  signal arrives after the last of them is put.
\<close>

theorem executor_notices:
  "list_all (notice_for i) (execute_job i x)
   \<and> execute_job i (Undisturbed (Returns code)) = [DONE i code]
   \<and> notices i (execute_job i (Undisturbed (Returns code))) = 1
   \<and> execute_job i (Undisturbed (Raises err l)) = [FAILED i err, DONE i (- 1)]
   \<and> notices i (execute_job i (Undisturbed (Raises err l))) = 2
   \<and> execute_job i (Signalled Before_handler signalled alive) = []
   \<and> (handled m \<and> terminate_process (has_process m) signalled alive = Inr () \<longrightarrow>
        execute_job i (Signalled m signalled alive) = sent_before i m @ [DONE i 1]
        \<and> notices i (execute_job i (Signalled m signalled alive))
            = notices i (sent_before i m) + 1)
   \<and> (m \<in> {Before_try, In_try p, After a 0}
        \<and> terminate_process (has_process m) signalled alive = Inr () \<longrightarrow>
        execute_job i (Signalled m signalled alive) = [DONE i 1]
        \<and> notices i (execute_job i (Signalled m signalled alive)) = 1)
   \<and> (length (after_try i a) \<le> k
        \<and> terminate_process (launched a) signalled alive = Inr () \<longrightarrow>
        execute_job i (Signalled (After a k) signalled alive)
          = execute_job i (Undisturbed a) @ [DONE i 1])"
  by (auto simp add: execute_job_notices notices_def handle_term_def)

theorem executor_notices_witness:
  "handled (In_try Waiting)
   \<and> In_try Waiting \<in> {Before_try, In_try Waiting, After (Returns 0) 0}
   \<and> terminate_process (has_process (In_try Waiting)) True (\<lambda>n. n < 3) = Inr ()
   \<and> execute_job 1 (Signalled (In_try Waiting) True (\<lambda>n. n < 3)) = [DONE 1 1]
   \<and> notices 1 (execute_job 1 (Signalled (In_try Waiting) True (\<lambda>n. n < 3))) = 1
   \<and> length (after_try 1 (Returns 0)) \<le> 1
   \<and> terminate_process (launched (Returns 0)) True (\<lambda>n. n < 3) = Inr ()
   \<and> execute_job 1 (Signalled (After (Returns 0) 1) True (\<lambda>n. n < 3)) = [DONE 1 0, DONE 1 1]"
  using executor_notices [of 1 "Undisturbed (Returns 0)" 0 "''x''" False True "\<lambda>n. n < 3"
                             "In_try Waiting" Waiting "Returns 0" 1]
  by (simp add: terminate_process_def sleeps_def handle_term_def notices_def)

subsection \<open>Draining\<close>

text \<open>
  C9. The \<^verbatim>\<open>WAIT\<close> handler sets the wait mode and changes nothing else. In the
  wait mode with both maps empty the loop ends without reading a message; it ends so
  right after the handler that empties the maps; and it never waits for a message in
  such a state.
\<close>

theorem wait_drains:
  "handle WAIT s = Inr (True, s\<lparr>wait_mode := True\<rparr>)
   \<and> (wait_mode s \<and> queued s = [] \<and> running s = [] \<longrightarrow> start msgs s = (Drained s, msgs))
   \<and> (\<not> (wait_mode s \<and> queued s = [] \<and> running s = []) \<and> handle m s = Inr (True, s')
        \<and> wait_mode s' \<and> queued s' = [] \<and> running s' = [] \<longrightarrow>
        start (m # msgs) s = (Drained s', msgs))
   \<and> (\<forall>s' rest. start msgs s = (Blocked s', rest) \<longrightarrow>
        \<not> (wait_mode s' \<and> queued s' = [] \<and> running s' = []))"
proof -
  have a: "handle WAIT s = Inr (True, s\<lparr>wait_mode := True\<rparr>)"
    by (simp add: handle_wait_def)
  have b: "wait_mode s \<and> queued s = [] \<and> running s = [] \<longrightarrow> start msgs s = (Drained s, msgs)"
    by (simp add: num_jobs_def start_drained)
  have c: "\<not> (wait_mode s \<and> queued s = [] \<and> running s = []) \<and> handle m s = Inr (True, s')
        \<and> wait_mode s' \<and> queued s' = [] \<and> running s' = [] \<longrightarrow>
        start (m # msgs) s = (Drained s', msgs)"
    by (subst start.simps) (auto simp add: num_jobs_def start_drained)
  have d: "\<forall>s' rest. start msgs s = (Blocked s', rest) \<longrightarrow>
        \<not> (wait_mode s' \<and> queued s' = [] \<and> running s' = [])"
    using start_never_blocks_drained[of msgs s] by (auto simp: num_jobs_def)
  from a b c d show ?thesis by blast
qed

theorem wait_drains_witness:
  "start [WAIT, JOBS] (GridMaster 4 None)
     = (Drained ((GridMaster 4 None)\<lparr>wait_mode := True\<rparr>), [JOBS])
   \<and> start [JOBS] ((GridMaster 4 None)\<lparr>wait_mode := True\<rparr>)
     = (Drained ((GridMaster 4 None)\<lparr>wait_mode := True\<rparr>), [JOBS])"
  using wait_drains[of "GridMaster 4 None" "[JOBS]" WAIT "(GridMaster 4 None)\<lparr>wait_mode := True\<rparr>"]
        wait_drains[of "(GridMaster 4 None)\<lparr>wait_mode := True\<rparr>" "[JOBS]"]
  by (simp add: GridMaster_def)

subsection \<open>The client without a master\<close>



subsection \<open>The scheduler\<close>






lemma first_fit_runnable:
  "first_fit xs avail = Some (i, j) \<Longrightarrow> dependencies j = [] \<and> threads j \<le> avail"
  by (induction xs avail rule: first_fit.induct) (auto simp: len_set_def split: if_splits)

lemma schedule_None:
  "first_fit (py_sorted job_lt (queued s)) (slots_available s) = None \<Longrightarrow> schedule s = s"
  by (subst schedule.simps) simp

lemma schedule_Some:
  "first_fit (py_sorted job_lt (queued s)) (slots_available s) = Some (i, j) \<Longrightarrow>
   schedule s = (if slots_available (promote i j s) \<ge> 1 then schedule (promote i j s) else promote i j s)"
  by (subst schedule.simps) (simp add: promote_def Let_def)

lemma schedule_ref_None:
  "first_fit (py_sorted job_lt (queued s)) (slots_available s) = None \<Longrightarrow> schedule_ref s = s"
  by (subst schedule_ref.simps) simp

lemma schedule_ref_Some:
  "first_fit (py_sorted job_lt (queued s)) (slots_available s) = Some (i, j) \<Longrightarrow>
   schedule_ref s = schedule_ref (promote i j s)"
  by (subst schedule_ref.simps) (simp add: promote_def Let_def)

text \<open>The induction rule of the scheduler, with the promotion as one step.\<close>

lemma schedule_induct [consumes 0, case_names idle last again]:
  assumes idle: "\<And>s. first_fit (py_sorted job_lt (queued s)) (slots_available s) = None \<Longrightarrow> P s"
    and last: "\<And>s i j. first_fit (py_sorted job_lt (queued s)) (slots_available s) = Some (i, j) \<Longrightarrow>
        \<not> 1 \<le> slots_available (promote i j s) \<Longrightarrow> P s"
    and again: "\<And>s i j. first_fit (py_sorted job_lt (queued s)) (slots_available s) = Some (i, j) \<Longrightarrow>
        1 \<le> slots_available (promote i j s) \<Longrightarrow> P (promote i j s) \<Longrightarrow> P s"
  shows "P s"
proof (induction s rule: schedule.induct)
  case (1 s)
  show ?case
  proof (cases "first_fit (py_sorted job_lt (queued s)) (slots_available s)")
    case None
    then show ?thesis by (rule idle)
  next
    case (Some x)
    obtain i j where x: "x = (i, j)" by (cases x)
    show ?thesis
    proof (cases "1 \<le> slots_available (promote i j s)")
      case True
      have "P (promote i j s)"
        using "1.IH"[OF Some x[symmetric] refl refl] True by (simp add: promote_def)
      with Some x True show ?thesis by (auto intro: again)
    next
      case False
      with Some x show ?thesis by (auto intro: last)
    qed
  qed
qed

lemma first_fit_queued:
  "first_fit (py_sorted job_lt (queued s)) avail = Some (i, j) \<Longrightarrow> (i, j) \<in> set (queued s)"
  using first_fit_mem set_py_sorted by fastforce

lemma queued_promote: "queued (promote i j s) = (if i \<in> fst ` set (queued s) then AList.delete i (queued s) else queued s)"
  by (simp add: promote_def run_job_def)

lemma set_queued_promote: "set (queued (promote i j s)) \<subseteq> set (queued s)"
  by (auto simp: queued_promote AList.delete_eq)

lemma first_fit_no_fit:
  "\<forall>(i, j) \<in> set xs. avail < threads j \<Longrightarrow> first_fit xs avail = None"
  by (induction xs avail rule: first_fit.induct) auto

lemma schedule_eq_ref:
  "\<forall>(i, j) \<in> set (queued s). 1 \<le> threads j \<Longrightarrow> schedule s = schedule_ref s"
proof (induction s rule: schedule_induct)
  case (idle s)
  then show ?case by (simp add: schedule_None schedule_ref_None)
next
  case (last s i j)
  let ?s2 = "promote i j s"
  from last.prems set_queued_promote[of i j s]
  have "\<forall>(i, j) \<in> set (py_sorted job_lt (queued ?s2)). slots_available ?s2 < threads j"
    using last.hyps(2) by (fastforce simp: set_py_sorted)
  then have "schedule_ref ?s2 = ?s2"
    by (intro schedule_ref_None first_fit_no_fit)
  with last.hyps show ?case by (simp add: schedule_Some schedule_ref_Some)
next
  case (again s i j)
  from again.prems set_queued_promote[of i j s]
  have "\<forall>(i, j) \<in> set (queued (promote i j s)). 1 \<le> threads j" by fast
  with again show ?case by (simp add: schedule_Some schedule_ref_Some)
qed

subsection \<open>Association lists\<close>

lemma ids_update: "ids (AList.update k v al) = insert k (ids al)"
  by (simp add: ids_def AList.dom_update)

lemma ids_delete: "ids (AList.delete k al) = ids al - {k}"
  by (auto simp: ids_def AList.delete_eq image_iff)

lemma ids_map_of: "k \<in> ids al \<longleftrightarrow> map_of al k \<noteq> None"
  by (simp add: ids_def map_of_eq_None_iff)

lemma keys_update_present:
  "map_of al k = Some j \<Longrightarrow> map fst (AList.update k v al) = map fst al"
  by (simp add: AList.update_keys) (metis domI dom_map_of_conv_image_fst set_map)

lemma threads_of_update_new:
  "k \<notin> ids al \<Longrightarrow> threads_of (AList.update k v al) = threads_of al + threads v"
  by (induction al) (auto simp: threads_of_def ids_def)

lemma threads_of_update_same:
  "map_of al k = Some j \<Longrightarrow> threads v = threads j \<Longrightarrow>
   threads_of (AList.update k v al) = threads_of al"
  by (induction al) (auto simp: threads_of_def)

lemma delete_notin: "k \<notin> ids al \<Longrightarrow> AList.delete k al = al"
  by (induction al) (auto simp: ids_def)

lemma threads_of_delete:
  "distinct (map fst al) \<Longrightarrow> map_of al k = Some j \<Longrightarrow>
   threads_of (AList.delete k al) = threads_of al - threads j"
proof (induction al)
  case Nil
  then show ?case by simp
next
  case (Cons a al)
  obtain k' j' where a: "a = (k', j')" by (cases a)
  show ?case
  proof (cases "k' = k")
    case True
    with Cons.prems a have "k \<notin> ids al" "j' = j" by (auto simp: ids_def)
    with True a show ?thesis by (simp add: delete_notin threads_of_def)
  next
    case False
    with Cons a show ?thesis by (simp add: threads_of_def)
  qed
qed

lemma list_all_update:
  "list_all Q al \<Longrightarrow> Q (k, v) \<Longrightarrow> list_all Q (AList.update k v al)"
  by (induction al) auto

lemma list_all_delete: "list_all Q al \<Longrightarrow> list_all Q (AList.delete k al)"
  by (simp add: AList.delete_eq list_all_iff)

lemma list_all_map_of: "list_all Q al \<Longrightarrow> map_of al k = Some v \<Longrightarrow> Q (k, v)"
  by (auto simp: list_all_iff dest: map_of_SomeD)

lemma distinct_filter_keys: "distinct (map fst al) \<Longrightarrow> distinct (map fst (filter Q al))"
  by (induction al) auto

subsection \<open>Promotion\<close>

lemma promote_fields [simp]:
  "slots_total (promote i j s) = slots_total s"
  "current_id (promote i j s) = current_id s"
  "wait_mode (promote i j s) = wait_mode s"
  "response (promote i j s) = response s"
  by (simp_all add: promote_def run_job_def)

lemma promote_queued_job:
  assumes "(i, j) \<in> set (queued s)"
  shows "queued (promote i j s) = AList.delete i (queued s)"
    and "running (promote i j s) = AList.update i (j\<lparr>process := True\<rparr>) (running s)"
    and "slots_available (promote i j s) = slots_available s - threads j"
  using assms by (force simp: promote_def run_job_def)+

lemma consistent_promote:
  assumes c: "consistent s" and q: "(i, j) \<in> set (queued s)"
  shows "consistent (promote i j s)"
proof -
  from q have iq: "i \<in> ids (queued s)" by (force simp: ids_def)
  with c have ir: "i \<notin> ids (running s)" by (auto simp: consistent_def)
  have "distinct (map fst (AList.delete i (queued s)))"
    using c by (simp add: consistent_def AList.distinct_delete)
  moreover have "distinct (map fst (AList.update i (j\<lparr>process := True\<rparr>) (running s)))"
    using c by (simp add: consistent_def AList.distinct_update)
  moreover have "threads_of (AList.update i (j\<lparr>process := True\<rparr>) (running s))
      = threads_of (running s) + threads j"
    using ir by (simp add: threads_of_update_new)
  ultimately show ?thesis
    using c iq ir by (auto simp: consistent_def promote_queued_job[OF q] ids_update ids_delete
        running_threads_def)
qed

lemma nonneg_promote:
  assumes n: "nonneg s" and q: "(i, j) \<in> set (queued s)" and fit: "threads j \<le> slots_available s"
  shows "nonneg (promote i j s)"
proof -
  from n q have "0 \<le> threads j" by (auto simp: nonneg_def list_all_iff)
  with n fit show ?thesis
    by (simp add: nonneg_def promote_queued_job[OF q] list_all_delete list_all_update)
qed

lemma consistent_schedule: "consistent s \<Longrightarrow> consistent (schedule s)"
proof (induction s rule: schedule_induct)
  case (idle s)
  then show ?case by (simp add: schedule_None)
next
  case (last s i j)
  then show ?case by (simp add: schedule_Some consistent_promote first_fit_queued)
next
  case (again s i j)
  then show ?case by (simp add: schedule_Some consistent_promote first_fit_queued)
qed

lemma nonneg_schedule: "nonneg s \<Longrightarrow> nonneg (schedule s)"
proof (induction s rule: schedule_induct)
  case (idle s)
  then show ?case by (simp add: schedule_None)
next
  case (last s i j)
  then show ?case
    by (simp add: schedule_Some nonneg_promote first_fit_queued first_fit_runnable)
next
  case (again s i j)
  then show ?case
    by (simp add: schedule_Some nonneg_promote first_fit_queued first_fit_runnable)
qed

subsection \<open>Updates of present keys\<close>

lemma on_keys_empty [simp]: "on_keys {} f al = al"
  by (simp add: on_keys_def)

lemma keys_on_keys [simp]: "map fst (on_keys K f al) = map fst al"
  by (simp add: on_keys_def case_prod_unfold comp_def)

lemma ids_on_keys [simp]: "ids (on_keys K f al) = ids al"
  by (metis ids_def keys_on_keys set_map)

lemma map_of_on_keys:
  "map_of (on_keys K f al) k = map_option (\<lambda>j. if k \<in> K then f j else j) (map_of al k)"
  by (induction al) (auto simp: on_keys_def)

lemma on_keys_absent: "k \<notin> ids al \<Longrightarrow> on_keys (insert k K) f al = on_keys K f al"
  by (induction al) (auto simp: on_keys_def ids_def)

lemma update_present:
  "distinct (map fst al) \<Longrightarrow> map_of al k = Some j \<Longrightarrow>
   AList.update k (f j) al = on_keys {k} f al"
proof (induction al)
  case Nil
  then show ?case by simp
next
  case (Cons a al)
  obtain k' j' where a: "a = (k', j')" by (cases a)
  show ?case
  proof (cases "k' = k")
    case True
    with Cons.prems a have "k \<notin> ids al" "j' = j" by (auto simp: ids_def)
    from on_keys_absent[OF this(1), of "{}" f] True a \<open>j' = j\<close> show ?thesis
      by (simp add: on_keys_def)
  next
    case False
    with Cons a have "AList.update k (f j) al = on_keys {k} f al" by simp
    with False a show ?thesis by (simp add: on_keys_def)
  qed
qed

lemma on_keys_twice:
  "(\<And>j. f (f j) = f j) \<Longrightarrow> on_keys K f (on_keys L f al) = on_keys (K \<union> L) f al"
  by (induction al) (auto simp: on_keys_def)

lemma threads_of_on_keys:
  "(\<And>j. threads (f j) = threads j) \<Longrightarrow> threads_of (on_keys K f al) = threads_of al"
  by (induction al) (auto simp: on_keys_def threads_of_def)

lemma list_all_on_keys:
  "list_all Q al \<Longrightarrow> (\<And>k j. Q (k, j) \<Longrightarrow> Q (k, f j)) \<Longrightarrow> list_all Q (on_keys K f al)"
  by (induction al) (auto simp: on_keys_def)

lemma discard_dependency_idem [simp]:
  "discard_dependency i (discard_dependency i j) = discard_dependency i j"
  by (simp add: discard_dependency_def set_remove_def)

lemma discard_dependency_fields [simp]:
  "threads (discard_dependency i j) = threads j"
  "children (discard_dependency i j) = children j"
  "process (discard_dependency i j) = process j"
  "set (dependencies (discard_dependency i j)) = set (dependencies j) - {i}"
  by (auto simp: discard_dependency_def set_remove_def)

lemma add_child_idem [simp]: "add_child n (add_child n j) = add_child n j"
  by (simp add: add_child_def set_add_def)

lemma add_child_fields [simp]:
  "threads (add_child n j) = threads j"
  "dependencies (add_child n j) = dependencies j"
  "process (add_child n j) = process j"
  "set (children (add_child n j)) = insert n (set (children j))"
  by (auto simp: add_child_def set_add_def)

lemma update_dependencies_loop_eq:
  "distinct (map fst (queued s)) \<Longrightarrow>
   update_dependencies_loop i cs s
     = s\<lparr>queued := on_keys (set cs) (discard_dependency i) (queued s)\<rparr>"
proof (induction cs arbitrary: s)
  case Nil
  then show ?case by simp
next
  case (Cons c cs)
  let ?s1 = "case map_of (queued s) c of None \<Rightarrow> s
     | Some child \<Rightarrow> s\<lparr>queued := AList.update c (discard_dependency i child) (queued s)\<rparr>"
  have s1: "?s1 = s\<lparr>queued := on_keys {c} (discard_dependency i) (queued s)\<rparr>"
  proof (cases "map_of (queued s) c")
    case None
    then have "c \<notin> ids (queued s)" by (simp add: ids_map_of)
    from on_keys_absent[OF this, of "{}"] None show ?thesis by simp
  next
    case (Some child)
    with Cons.prems show ?thesis by (simp add: update_present)
  qed
  have "update_dependencies_loop i (c # cs) s = update_dependencies_loop i cs ?s1" by simp
  also have "\<dots> = ?s1\<lparr>queued := on_keys (set cs) (discard_dependency i) (queued ?s1)\<rparr>"
    using Cons.prems by (intro Cons.IH) (simp add: s1)
  also have "\<dots> = s\<lparr>queued := on_keys (set (c # cs)) (discard_dependency i) (queued s)\<rparr>"
    by (simp add: s1 on_keys_twice Un_commute)
  finally show ?case .
qed

lemma update_dependencies_loop_noop:
  "\<forall>c \<in> set cs. map_of (queued s) c = None \<Longrightarrow> update_dependencies_loop i cs s = s"
  by (induction cs arbitrary: s) auto

lemma update_children_eq:
  "distinct (map fst (queued s)) \<Longrightarrow> distinct (map fst (running s)) \<Longrightarrow>
   update_children n ds s
     = s\<lparr>queued := on_keys (set ds) (add_child n) (queued s),
         running := on_keys (set ds) (add_child n) (running s)\<rparr>"
proof (induction ds arbitrary: s)
  case Nil
  then show ?case by simp
next
  case (Cons d ds)
  let ?s1 = "case map_of (queued s) d of None \<Rightarrow> s
     | Some parent \<Rightarrow> s\<lparr>queued := AList.update d (add_child n parent) (queued s)\<rparr>"
  let ?s2 = "case map_of (running ?s1) d of None \<Rightarrow> ?s1
     | Some parent \<Rightarrow> ?s1\<lparr>running := AList.update d (add_child n parent) (running ?s1)\<rparr>"
  have s1: "?s1 = s\<lparr>queued := on_keys {d} (add_child n) (queued s)\<rparr>"
  proof (cases "map_of (queued s) d")
    case None
    then have "d \<notin> ids (queued s)" by (simp add: ids_map_of)
    from on_keys_absent[OF this, of "{}"] None show ?thesis by simp
  next
    case (Some parent)
    with Cons.prems show ?thesis by (simp add: update_present)
  qed
  have s2: "?s2 = s\<lparr>queued := on_keys {d} (add_child n) (queued s),
                    running := on_keys {d} (add_child n) (running s)\<rparr>"
  proof (cases "map_of (running s) d")
    case None
    then have "d \<notin> ids (running s)" by (simp add: ids_map_of)
    from on_keys_absent[OF this, of "{}"] None show ?thesis by (simp add: s1)
  next
    case (Some parent)
    with Cons.prems show ?thesis by (simp add: s1 update_present)
  qed
  have "update_children n (d # ds) s = update_children n ds ?s2"
    by (simp add: Let_def)
  also have "\<dots> = ?s2\<lparr>queued := on_keys (set ds) (add_child n) (queued ?s2),
                       running := on_keys (set ds) (add_child n) (running ?s2)\<rparr>"
    using Cons.prems by (intro Cons.IH) (simp_all add: s2)
  also have "\<dots> = s\<lparr>queued := on_keys (set (d # ds)) (add_child n) (queued s),
                      running := on_keys (set (d # ds)) (add_child n) (running s)\<rparr>"
    by (simp add: s2 on_keys_twice Un_commute)
  finally show ?case .
qed

subsection \<open>The shape of a cascade\<close>

lemma without_empty [simp]: "without {} al = al"
  by (simp add: without_def)

lemma without_without: "without K (without L al) = without (K \<union> L) al"
  by (auto simp: without_def intro: filter_cong)

lemma delete_without: "AList.delete k al = without {k} al"
  by (auto simp: without_def AList.delete_eq intro: filter_cong)

lemma ids_without: "ids (without K al) = ids al - K"
  by (auto simp: without_def ids_def image_iff)

lemma map_of_without:
  "map_of (without K al) k = (if k \<in> K then None else map_of al k)"
  by (induction al) (auto simp: without_def)

lemma remove_children_loop_shape:
  assumes "remove_children_loop cs s = Some y"
  shows "\<exists>K. y = s\<lparr>queued := without K (queued s)\<rparr> \<and> set cs \<inter> ids (queued s) \<subseteq> K"
  using assms
proof (rule remove_children_loop.raw_induct[rotated])
  fix rc :: "int list \<Rightarrow> master \<Rightarrow> master option" and cs s y
  assume IH: "\<And>cs s y. rc cs s = Some y \<Longrightarrow>
      \<exists>K. y = s\<lparr>queued := without K (queued s)\<rparr> \<and> set cs \<inter> ids (queued s) \<subseteq> K"
  assume body: "(case cs of [] \<Rightarrow> Some s
      | c # cs' \<Rightarrow>
          case map_of (queued s) c of None \<Rightarrow> rc cs' s
          | Some child \<Rightarrow>
              Option.bind (rc (children child) s)
               (\<lambda>s1. Option.bind (del_queued c (update_dependencies c child s1)) (rc cs'))) = Some y"
  show "\<exists>K. y = s\<lparr>queued := without K (queued s)\<rparr> \<and> set cs \<inter> ids (queued s) \<subseteq> K"
  proof (cases cs)
    case Nil
    with body have "y = s" by simp
    with Nil show ?thesis by (intro exI[of _ "{}"]) simp
  next
    case (Cons c cs')
    show ?thesis
    proof (cases "map_of (queued s) c")
      case None
      with Cons body have "rc cs' s = Some y" by simp
      from IH[OF this] obtain K where
        "y = s\<lparr>queued := without K (queued s)\<rparr>" "set cs' \<inter> ids (queued s) \<subseteq> K" by blast
      with None Cons show ?thesis by (intro exI[of _ K]) (auto simp: ids_map_of)
    next
      case (Some child)
      with Cons body obtain s1 s2 where
        s1: "rc (children child) s = Some s1" and
        s2: "del_queued c (update_dependencies c child s1) = Some s2" and
        y: "rc cs' s2 = Some y"
        by (auto simp: bind_eq_Some_conv)
      from IH[OF s1] obtain K1 where
        K1: "s1 = s\<lparr>queued := without K1 (queued s)\<rparr>" "set (children child) \<inter> ids (queued s) \<subseteq> K1"
        by blast
      have "\<forall>c' \<in> set (children child). map_of (queued s1) c' = None"
        using K1 by (auto simp: map_of_without ids_map_of)
      then have "update_dependencies c child s1 = s1"
        by (simp add: update_dependencies_def update_dependencies_loop_noop)
      with s2 have s2': "s2 = s\<lparr>queued := without (insert c K1) (queued s)\<rparr>"
        by (auto simp: del_queued_def K1 delete_without without_without split: if_splits)
      from IH[OF y] obtain K2 where
        K2: "y = s2\<lparr>queued := without K2 (queued s2)\<rparr>" "set cs' \<inter> ids (queued s2) \<subseteq> K2"
        by blast
      have "y = s\<lparr>queued := without (K2 \<union> insert c K1) (queued s)\<rparr>"
        using K2 by (simp add: s2' without_without)
      moreover have "set cs \<inter> ids (queued s) \<subseteq> K2 \<union> insert c K1"
        using K2(2) Cons by (auto simp: s2' ids_without)
      ultimately show ?thesis by blast
    qed
  qed
qed

subsection \<open>The accounting invariant\<close>

lemma consistent_same_keys:
  assumes "consistent s"
    and "map fst (queued s') = map fst (queued s)"
    and "map fst (running s') = map fst (running s)"
    and "threads_of (running s') = threads_of (running s)"
    and "slots_available s' = slots_available s" and "slots_total s' = slots_total s"
    and "current_id s' = current_id s"
  shows "consistent s'"
proof -
  have "ids (queued s') = ids (queued s)" "ids (running s') = ids (running s)"
    using assms(2,3) by (metis ids_def set_map)+
  with assms show ?thesis by (simp add: consistent_def running_threads_def)
qed

lemma distinct_without: "distinct (map fst al) \<Longrightarrow> distinct (map fst (without K al))"
  by (simp add: without_def distinct_filter_keys)

lemma consistent_without:
  "consistent s \<Longrightarrow> consistent (s\<lparr>queued := without K (queued s)\<rparr>)"
  by (auto simp: consistent_def ids_without distinct_without running_threads_def)

lemma nonneg_without:
  "nonneg s \<Longrightarrow> nonneg (s\<lparr>queued := without K (queued s)\<rparr>)"
  by (auto simp: nonneg_def without_def list_all_iff)

lemma consistent_update_dependencies:
  assumes "consistent s" shows "consistent (update_dependencies i job s)"
proof -
  from assms have "distinct (map fst (queued s))" by (simp add: consistent_def)
  then show ?thesis
    by (auto simp: update_dependencies_def update_dependencies_loop_eq
        intro: consistent_same_keys[OF assms])
qed

lemma nonneg_update_dependencies:
  assumes "consistent s" "nonneg s" shows "nonneg (update_dependencies i job s)"
proof -
  from assms have "distinct (map fst (queued s))" by (simp add: consistent_def)
  with assms(2) show ?thesis
    by (auto simp: update_dependencies_def update_dependencies_loop_eq nonneg_def
        intro!: list_all_on_keys)
qed

lemma cascade_shape:
  "cascade job s = Inr s' \<Longrightarrow> \<exists>K. s' = s\<lparr>queued := without K (queued s)\<rparr>"
  using remove_children_loop_shape[of "children job" s s']
  by (auto simp: cascade_def remove_children_def split: option.splits)

lemma consistent_cascade: "cascade job s = Inr s' \<Longrightarrow> consistent s \<Longrightarrow> consistent s'"
  using cascade_shape consistent_without by blast

lemma nonneg_cascade: "cascade job s = Inr s' \<Longrightarrow> nonneg s \<Longrightarrow> nonneg s'"
  using cascade_shape nonneg_without by blast

lemma consistent_leave_running:
  assumes c: "consistent s" and r: "map_of (running s) i = Some job"
  shows "consistent (s\<lparr>slots_available := slots_available s + threads job,
                       running := AList.delete i (running s)\<rparr>)"
  using c r by (auto simp: consistent_def ids_delete AList.distinct_delete running_threads_def
      threads_of_delete)

lemma nonneg_leave_running:
  assumes n: "nonneg s" and r: "map_of (running s) i = Some job"
  shows "nonneg (s\<lparr>slots_available := slots_available s + threads job,
                   running := AList.delete i (running s)\<rparr>)"
proof -
  from n r have "0 \<le> threads job" by (auto simp: nonneg_def dest: list_all_map_of)
  with n show ?thesis by (simp add: nonneg_def list_all_delete)
qed

lemma consistent_leave_queued:
  "consistent s \<Longrightarrow> consistent (s\<lparr>queued := AList.delete i (queued s)\<rparr>)"
  by (simp add: delete_without consistent_without)

lemma nonneg_leave_queued:
  "nonneg s \<Longrightarrow> nonneg (s\<lparr>queued := AList.delete i (queued s)\<rparr>)"
  by (simp add: delete_without nonneg_without)

lemma without_on_keys: "without K (on_keys L f al) = on_keys L f (without K al)"
  by (induction al) (auto simp: without_def on_keys_def)

subsection \<open>What the handlers return\<close>

lemma released_fields [simp]:
  "running (released i job K s) = running s"
  "slots_available (released i job K s) = slots_available s"
  "slots_total (released i job K s) = slots_total s"
  "current_id (released i job K s) = current_id s"
  "wait_mode (released i job K s) = wait_mode s"
  "response (released i job K s) = response s"
  "queued (released i job K s)
     = without K (on_keys (set (children job)) (discard_dependency i) (queued s))"
  by (simp_all add: released_def)

lemma handle_done_shape:
  assumes dq: "distinct (map fst (queued s))"
    and r: "map_of (running s) i = Some job" and h: "handle_done i st s = Inr (go, s')"
  shows "\<exists>K. s' = schedule (released i job K
           (s\<lparr>slots_available := slots_available s + threads job,
              running := AList.delete i (running s)\<rparr>))"
proof -
  let ?job1 = "job\<lparr>process := False\<rparr>"
  let ?s2 = "s\<lparr>running := AList.update i ?job1 (running s),
               slots_available := slots_available s + threads job\<rparr>"
  let ?s3 = "update_dependencies i ?job1 ?s2"
  from r h obtain s4 where
    s4: "cascade ?job1 ?s3 = Inr s4 \<or> s4 = ?s3"
    and s': "s' = schedule (s4\<lparr>running := AList.delete i (running s4)\<rparr>)"
    by (auto simp: handle_done_def Let_def split: if_splits sum.splits)
  have s3: "?s3 = ?s2\<lparr>queued := on_keys (set (children job)) (discard_dependency i) (queued s)\<rparr>"
    using dq by (simp add: update_dependencies_def update_dependencies_loop_eq)
  from s4 have "\<exists>K. s4 = ?s3\<lparr>queued := without K (queued ?s3)\<rparr>"
  proof
    assume "cascade ?job1 ?s3 = Inr s4"
    then show ?thesis by (rule cascade_shape)
  next
    assume "s4 = ?s3"
    then have "s4 = ?s3\<lparr>queued := without {} (queued ?s3)\<rparr>" by simp
    then show ?thesis ..
  qed
  then obtain K where K: "s4 = ?s3\<lparr>queued := without K (queued ?s3)\<rparr>" ..
  have "s4\<lparr>running := AList.delete i (running s4)\<rparr>
      = released i job K (s\<lparr>slots_available := slots_available s + threads job,
              running := AList.delete i (running s)\<rparr>)"
    by (simp add: K s3 AList.delete_update_same released_def)
  with s' show ?thesis by auto
qed

lemma handle_cancel_shape:
  assumes dq: "distinct (map fst (queued s))" and h: "handle_cancel i s = Inr (go, s')"
  shows "(map_of (running s) i = None \<and> map_of (queued s) i = None \<and> s' = s)
     \<or> (\<exists>job K. map_of (running s) i = Some job \<and>
          s' = schedule (released i job K
            (s\<lparr>slots_available := slots_available s + threads job,
               running := AList.delete i (running s)\<rparr>)))
     \<or> (\<exists>job K. map_of (running s) i = None \<and> map_of (queued s) i = Some job \<and> i \<in> K \<and>
          s' = schedule (released i job K s))"
proof (cases "map_of (running s) i")
  case (Some job)
  let ?t = "s\<lparr>slots_available := slots_available s + threads job,
              running := AList.delete i (running s)\<rparr>"
  from Some h obtain s2 where
    c: "cascade (job\<lparr>process := False\<rparr>) (update_dependencies i (job\<lparr>process := False\<rparr>) ?t) = Inr s2"
    and s': "s' = schedule s2"
    by (auto simp: handle_cancel_def Let_def split: if_splits sum.splits)
  from cascade_shape[OF c] dq obtain K where "s2 = released i job K ?t"
    by (auto simp: update_dependencies_def update_dependencies_loop_eq released_def)
  with Some s' show ?thesis by auto
next
  case None
  note nr = this
  show ?thesis
  proof (cases "map_of (queued s) i")
    case None
    with nr h show ?thesis by (simp add: handle_cancel_def)
  next
    case (Some job)
    let ?t = "s\<lparr>queued := AList.delete i (queued s)\<rparr>"
    from nr Some h obtain s2 where
      c: "cascade job (update_dependencies i job ?t) = Inr s2"
      and s': "s' = schedule s2"
      by (auto simp: handle_cancel_def Let_def split: if_splits sum.splits)
    have "distinct (map fst (queued ?t))" using dq by (simp add: AList.distinct_delete)
    with cascade_shape[OF c] obtain K where
      "s2 = s\<lparr>queued := without K (on_keys (set (children job)) (discard_dependency i) (without {i} (queued s)))\<rparr>"
      by (auto simp: update_dependencies_def update_dependencies_loop_eq delete_without)
    then have "s2 = released i job (K \<union> {i}) s"
      by (simp add: released_def without_on_keys[symmetric] without_without)
    with nr Some s' show ?thesis by auto
  qed
qed

lemma consistent_ids_le:
  "consistent s \<Longrightarrow> k \<in> ids (queued s) \<or> k \<in> ids (running s) \<Longrightarrow> k \<le> current_id s"
  by (auto simp: consistent_def)

lemma update_absent: "k \<notin> ids al \<Longrightarrow> AList.update k v al = al @ [(k, v)]"
  by (induction al) (auto simp: ids_def)

lemma handle_submit_shape:
  assumes c: "consistent s"
  shows "handle_submit job s
     = Inr (True, if 1 \<le> slots_available s then schedule (entered job s) else entered job s)"
proof -
  let ?n = "current_id s + 1"
  let ?job = "job\<lparr>stdout := resolve_log ?n (stdout job), stderr := resolve_log ?n (stderr job)\<rparr>"
  have fresh: "?n \<notin> ids (queued s)"
  proof
    assume "?n \<in> ids (queued s)"
    from consistent_ids_le[OF c disjI1, OF this] show False by simp
  qed
  then have u: "AList.update ?n ?job (queued s) = queued s @ [(?n, ?job)]"
    by (rule update_absent)
  let ?s2 = "s\<lparr>current_id := ?n, queued := queued s @ [(?n, ?job)]\<rparr>"
  have "distinct (map fst (queued ?s2))" "distinct (map fst (running ?s2))"
    using c fresh by (auto simp: consistent_def ids_def)
  from update_children_eq[OF this, of ?n "dependencies job"] show ?thesis
    by (simp add: handle_submit_def next_id_def Let_def u entered_def)
qed

lemma consistent_released: "consistent t \<Longrightarrow> consistent (released i job K t)"
proof -
  assume t: "consistent t"
  have "consistent (t\<lparr>queued := on_keys (set (children job)) (discard_dependency i) (queued t)\<rparr>)"
    by (rule consistent_same_keys[OF t]) simp_all
  from consistent_without[OF this, of K] show ?thesis by (simp add: released_def)
qed

lemma nonneg_released: "nonneg t \<Longrightarrow> nonneg (released i job K t)"
  by (auto simp: nonneg_def released_def without_def on_keys_def list_all_iff)

lemma entered_fields [simp]:
  "map fst (queued (entered job s)) = map fst (queued s) @ [current_id s + 1]"
  "map fst (running (entered job s)) = map fst (running s)"
  "threads_of (running (entered job s)) = threads_of (running s)"
  "slots_available (entered job s) = slots_available s"
  "slots_total (entered job s) = slots_total s"
  "current_id (entered job s) = current_id s + 1"
  "wait_mode (entered job s) = wait_mode s"
  by (simp_all add: entered_def Let_def threads_of_on_keys)

lemma ids_keys: "ids al = set (map fst al)"
  by (simp add: ids_def)

lemma ids_entered [simp]:
  "ids (queued (entered job s)) = insert (current_id s + 1) (ids (queued s))"
  "ids (running (entered job s)) = ids (running s)"
  by (simp_all only: ids_keys entered_fields) simp_all

lemma consistent_entered: assumes c: "consistent s" shows "consistent (entered job s)"
proof -
  let ?n = "current_id s + 1"
  have fresh: "?n \<notin> ids (queued s)" "?n \<notin> ids (running s)"
    using consistent_ids_le[OF c, of ?n] by auto
  have le: "k \<le> ?n" if "k \<in> ids (queued s) \<or> k \<in> ids (running s)" for k
    using consistent_ids_le[OF c that] by simp
  have "distinct (map fst (queued (entered job s)))"
    using c fresh(1) by (simp add: consistent_def ids_def)
  moreover have "distinct (map fst (running (entered job s)))"
    using c by (simp add: consistent_def)
  moreover have "ids (queued (entered job s)) \<inter> ids (running (entered job s)) = {}"
    using c fresh(2) by (simp add: consistent_def)
  moreover have "\<forall>k \<in> ids (queued (entered job s)) \<union> ids (running (entered job s)).
      k \<le> current_id (entered job s)"
    using le by auto
  moreover have "slots_available (entered job s) + running_threads (entered job s)
      = slots_total (entered job s)"
    using c by (simp add: consistent_def running_threads_def)
  ultimately show ?thesis unfolding consistent_def by blast
qed

lemma nonneg_entered: "nonneg s \<Longrightarrow> 0 \<le> threads job \<Longrightarrow> nonneg (entered job s)"
  by (auto simp: nonneg_def entered_def Let_def on_keys_def list_all_iff)

lemma consistent_handle:
  assumes c: "consistent s" and h: "handle m s = Inr (go, s')"
  shows "consistent s'"
proof -
  have dq: "distinct (map fst (queued s))" using c by (simp add: consistent_def)
  show ?thesis
  proof (cases m)
    case EXIT
    with h c show ?thesis by (auto simp: handle_exit_def split: if_splits)
  next
    case JOBS
    with h have "s' = s\<lparr>response := response s @ [JobList (map fst (queued s) @ map fst (running s))]\<rparr>"
      by (auto simp: handle_jobs_def)
    then show ?thesis by (auto intro: consistent_same_keys[OF c])
  next
    case (SUBMIT job)
    with h c show ?thesis
      by (auto simp: handle_submit_shape consistent_entered consistent_schedule split: if_splits)
  next
    case WAIT
    with h have "s' = s\<lparr>wait_mode := True\<rparr> \<or> s' = s" by (auto simp: handle_wait_def split: if_splits)
    then show ?thesis using c by (auto intro: consistent_same_keys[OF c])
  next
    case (DONE i st)
    show ?thesis
    proof (cases "map_of (running s) i")
      case None
      with DONE h c show ?thesis by (simp add: handle_done_def)
    next
      case (Some job)
      from DONE h have "handle_done i st s = Inr (go, s')" by simp
      from handle_done_shape[OF dq Some this] obtain K where
        "s' = schedule (released i job K
           (s\<lparr>slots_available := slots_available s + threads job,
              running := AList.delete i (running s)\<rparr>))" ..
      then show ?thesis
        by (simp add: consistent_schedule consistent_released consistent_leave_running[OF c Some])
    qed
  next
    case (FAILED i err)
    with h show ?thesis by (simp add: handle_failed_def unning_def)
  next
    case (CANCEL oi)
    show ?thesis
    proof (cases oi)
      case None
      with CANCEL h show ?thesis by simp
    next
      case (Some i)
      with CANCEL h have "handle_cancel i s = Inr (go, s')" by simp
      from handle_cancel_shape[OF dq this] show ?thesis
        by (auto simp: c consistent_schedule consistent_released consistent_leave_running)
    qed
  qed
qed

lemma nonneg_handle:
  assumes c: "consistent s" and n: "nonneg s" and h: "handle m s = Inr (go, s')"
    and P: "\<And>job. m = SUBMIT job \<Longrightarrow> 0 \<le> threads job"
  shows "nonneg s'"
proof -
  have dq: "distinct (map fst (queued s))" using c by (simp add: consistent_def)
  show ?thesis
  proof (cases m)
    case EXIT
    with h n show ?thesis by (auto simp: handle_exit_def split: if_splits)
  next
    case JOBS
    with h n show ?thesis by (auto simp: handle_jobs_def nonneg_def)
  next
    case (SUBMIT job)
    with h c n P[OF SUBMIT] show ?thesis
      by (auto simp: handle_submit_shape nonneg_entered nonneg_schedule split: if_splits)
  next
    case WAIT
    with h n show ?thesis by (auto simp: handle_wait_def nonneg_def split: if_splits)
  next
    case (DONE i st)
    show ?thesis
    proof (cases "map_of (running s) i")
      case None
      with DONE h n show ?thesis by (simp add: handle_done_def)
    next
      case (Some job)
      from DONE h have "handle_done i st s = Inr (go, s')" by simp
      from handle_done_shape[OF dq Some this] obtain K where
        "s' = schedule (released i job K
           (s\<lparr>slots_available := slots_available s + threads job,
              running := AList.delete i (running s)\<rparr>))" ..
      then show ?thesis
        by (simp add: nonneg_schedule nonneg_released nonneg_leave_running[OF n Some])
    qed
  next
    case (FAILED i err)
    with h show ?thesis by (simp add: handle_failed_def unning_def)
  next
    case (CANCEL oi)
    show ?thesis
    proof (cases oi)
      case None
      with CANCEL h show ?thesis by simp
    next
      case (Some i)
      with CANCEL h have "handle_cancel i s = Inr (go, s')" by simp
      from handle_cancel_shape[OF dq this] show ?thesis
        by (auto simp: n nonneg_schedule nonneg_released nonneg_leave_running)
    qed
  qed
qed

lemma consistent_GridMaster: "consistent (GridMaster cpu cores)"
  by (simp add: consistent_def GridMaster_def Let_def ids_def running_threads_def threads_of_def)

lemma reachable_consistent: "reachable P cpu s \<Longrightarrow> consistent s"
  by (induction rule: reachable.induct) (auto intro: consistent_GridMaster consistent_handle)

lemma reachable_nonneg:
  assumes "reachable P cpu s" and "0 \<le> cpu" and "\<And>s job. P s job \<Longrightarrow> 0 \<le> threads job"
  shows "nonneg s"
  using assms(1)
proof (induction rule: reachable.induct)
  case init
  from assms(2) show ?case by (simp add: nonneg_def GridMaster_def)
next
  case (step s m go s')
  show ?case
  proof (rule nonneg_handle[OF reachable_consistent[OF step.hyps(1)] step.IH step.hyps(3)])
    fix job assume "m = SUBMIT job"
    with step.hyps(2) assms(3) show "0 \<le> threads job" by simp
  qed
qed





lemma update_children_threads:
  "list_all (\<lambda>(i, j). Q (threads j)) (queued s) \<Longrightarrow>
   list_all (\<lambda>(i, j). Q (threads j)) (queued (update_children n ds s))"
proof (induction ds arbitrary: s)
  case Nil
  then show ?case by simp
next
  case (Cons d ds)
  show ?case
    unfolding update_children.simps Let_def
    by (rule Cons.IH)
       (use Cons.prems in \<open>auto split: option.splits intro!: list_all_update dest: list_all_map_of\<close>)
qed

text \<open>
  C7. When every queued job needs at least one slot, the scheduler returns what the
  reference scheduler returns, which starts the pass again after each promotion without
  looking at the slots; the scheduler's own result after a promotion is its result on
  the state after that promotion; and the submit handler, which calls the scheduler only
  when a slot is free, returns what it would return if it called the reference scheduler
  every time.
\<close>

theorem restart_guard_unobservable:
  assumes "\<forall>(i, j) \<in> set (queued s). 1 \<le> threads j"
  shows "schedule s = schedule_ref s
    \<and> (first_fit (py_sorted job_lt (queued s)) (slots_available s) = Some (i, j) \<longrightarrow>
         schedule s = schedule (promote i j s))
    \<and> (1 \<le> threads job \<longrightarrow> handle_submit job s = handle_submit_ref job s)"
proof -
  have a: "schedule s = schedule_ref s" by (rule schedule_eq_ref[OF assms])
  have b: "schedule s = schedule (promote i j s)"
    if ff: "first_fit (py_sorted job_lt (queued s)) (slots_available s) = Some (i, j)"
  proof -
    from assms set_queued_promote[of i j s]
    have pos: "\<forall>(i, j) \<in> set (queued (promote i j s)). 1 \<le> threads j" by fast
    show ?thesis
    proof (cases "1 \<le> slots_available (promote i j s)")
      case True
      with ff show ?thesis by (simp add: schedule_Some)
    next
      case False
      with pos have "\<forall>(i', j') \<in> set (py_sorted job_lt (queued (promote i j s))).
          slots_available (promote i j s) < threads j'"
        by (fastforce simp: set_py_sorted)
      then have "schedule (promote i j s) = promote i j s"
        by (intro schedule_None first_fit_no_fit)
      with ff False show ?thesis by (simp add: schedule_Some)
    qed
  qed
  have c: "handle_submit job s = handle_submit_ref job s" if t: "1 \<le> threads job"
  proof -
    let ?n = "current_id s + 1"
    let ?job = "job\<lparr>stdout := resolve_log ?n (stdout job), stderr := resolve_log ?n (stderr job)\<rparr>"
    let ?s2 = "s\<lparr>current_id := ?n, queued := AList.update ?n ?job (queued s)\<rparr>"
    let ?s3 = "update_children ?n (dependencies job) ?s2"
    let ?s4 = "?s3\<lparr>response := response ?s3 @ [JobId ?n]\<rparr>"
    have "list_all (\<lambda>(i, j). 1 \<le> threads j) (queued s)"
      using assms by (simp add: list_all_iff)
    then have "list_all (\<lambda>(i, j). 1 \<le> threads j) (queued ?s2)"
      using t by (simp add: list_all_update)
    then have "list_all (\<lambda>(i, j). 1 \<le> threads j) (queued ?s3)"
      by (rule update_children_threads)
    then have pos: "\<forall>(i, j) \<in> set (queued ?s4). 1 \<le> threads j"
      by (simp add: list_all_iff)
    have l: "handle_submit job s
        = Inr (True, if 1 \<le> slots_available ?s4 then schedule ?s4 else ?s4)"
      by (simp add: handle_submit_def next_id_def Let_def)
    have r: "handle_submit_ref job s = Inr (True, schedule_ref ?s4)"
      by (simp add: handle_submit_ref_def next_id_def Let_def)
    have "(if 1 \<le> slots_available ?s4 then schedule ?s4 else ?s4) = schedule_ref ?s4"
    proof (cases "1 \<le> slots_available ?s4")
      case True
      with schedule_eq_ref[OF pos] show ?thesis by simp
    next
      case False
      with pos have "\<forall>(i', j') \<in> set (py_sorted job_lt (queued ?s4)). slots_available ?s4 < threads j'"
        by (fastforce simp: set_py_sorted)
      then have "schedule_ref ?s4 = ?s4"
        by (intro schedule_ref_None first_fit_no_fit)
      with False show ?thesis by simp
    qed
    then show ?thesis by (simp only: l r)
  qed
  from a b c show ?thesis by blast
qed

theorem restart_guard_unobservable_witness:
  "schedule master_idle = schedule_ref master_idle
   \<and> schedule master_idle = schedule (promote 1 job_A master_idle)
   \<and> handle_submit job_A master_idle = handle_submit_ref job_A master_idle"
proof -
  have h: "\<forall>(i, j) \<in> set (queued master_idle). 1 \<le> threads j"
    by (simp add: master_idle_def job_A_def job_B_def new_Job_def)
  have ff: "first_fit (py_sorted job_lt (queued master_idle)) (slots_available master_idle)
      = Some (1, job_A)" by code_simp
  have t: "1 \<le> threads job_A" by (simp add: job_A_def new_Job_def)
  from restart_guard_unobservable[OF h, of 1 job_A job_A] ff t show ?thesis by blast
qed

subsection \<open>Reachable states\<close>

lemma with_process_promote:
  "with_process s \<Longrightarrow> (i, j) \<in> set (queued s) \<Longrightarrow> with_process (promote i j s)"
  by (simp add: with_process_def promote_queued_job list_all_update)

lemma with_process_schedule: "with_process s \<Longrightarrow> with_process (schedule s)"
proof (induction s rule: schedule_induct)
  case (idle s)
  then show ?case by (simp add: schedule_None)
next
  case (last s i j)
  then show ?case by (simp add: schedule_Some with_process_promote first_fit_queued)
next
  case (again s i j)
  then show ?case by (simp add: schedule_Some with_process_promote first_fit_queued)
qed

lemma with_process_handle:
  assumes c: "consistent s" and w: "with_process s" and h: "handle m s = Inr (go, s')"
  shows "with_process s'"
proof -
  have dq: "distinct (map fst (queued s))" using c by (simp add: consistent_def)
  have left: "with_process (schedule (released i job K
           (s\<lparr>slots_available := a, running := AList.delete i (running s)\<rparr>)))" for i job K a
    using w by (intro with_process_schedule) (simp add: with_process_def list_all_delete)
  show ?thesis
  proof (cases m)
    case EXIT
    with h w show ?thesis by (auto simp: handle_exit_def split: if_splits)
  next
    case JOBS
    with h w show ?thesis by (auto simp: handle_jobs_def with_process_def)
  next
    case (SUBMIT job)
    have "with_process (entered job s)"
      using w by (auto simp: with_process_def entered_def Let_def intro!: list_all_on_keys)
    with SUBMIT h c show ?thesis
      by (auto simp: handle_submit_shape with_process_schedule split: if_splits)
  next
    case WAIT
    with h w show ?thesis by (auto simp: handle_wait_def with_process_def split: if_splits)
  next
    case (DONE i st)
    show ?thesis
    proof (cases "map_of (running s) i")
      case None
      with DONE h w show ?thesis by (simp add: handle_done_def)
    next
      case (Some job)
      from DONE h have "handle_done i st s = Inr (go, s')" by simp
      from handle_done_shape[OF dq Some this] left show ?thesis by auto
    qed
  next
    case (FAILED i err)
    with h show ?thesis by (simp add: handle_failed_def unning_def)
  next
    case (CANCEL oi)
    show ?thesis
    proof (cases oi)
      case None
      with CANCEL h show ?thesis by simp
    next
      case (Some i)
      with CANCEL h have hc: "handle_cancel i s = Inr (go, s')" by simp
      have "with_process (schedule (released i job K s))" for job K
        using w by (intro with_process_schedule) (simp add: with_process_def)
      with handle_cancel_shape[OF dq hc] left w show ?thesis by auto
    qed
  qed
qed

lemma reachable_with_process: "reachable P cpu s \<Longrightarrow> with_process s"
proof (induction rule: reachable.induct)
  case init
  show ?case by (simp add: with_process_def GridMaster_def Let_def)
next
  case (step s m go s')
  from with_process_handle[OF reachable_consistent[OF step.hyps(1)] step.IH step.hyps(3)]
  show ?case .
qed

lemma start_reachable:
  assumes "reachable P cpu s"
    and "\<forall>job t. SUBMIT job \<in> set msgs \<longrightarrow> P t job"
    and "start msgs s = (e, rest)"
    and "e = Blocked s' \<or> e = Drained s' \<or> e = Stopped s'"
  shows "reachable P cpu s'"
  using assms
proof (induction msgs arbitrary: s)
  case Nil
  show ?case
  proof (cases "wait_mode s \<and> num_jobs s = 0")
    case True
    with Nil show ?thesis by (auto simp: start_drained)
  next
    case False
    with Nil start_Nil[OF False] show ?thesis by auto
  qed
next
  case (Cons m msgs)
  show ?case
  proof (cases "wait_mode s \<and> num_jobs s = 0")
    case True
    with Cons.prems show ?thesis by (auto simp: start_drained)
  next
    case False
    note run = Cons.prems(3)[unfolded start_Cons[OF False]]
    show ?thesis
    proof (cases "handle m s")
      case (Inl err)
      with run Cons.prems(4) show ?thesis by auto
    next
      case (Inr r)
      obtain go s1 where r: "r = (go, s1)" by (cases r)
      have P: "\<forall>job. m = SUBMIT job \<longrightarrow> P s job" using Cons.prems(2) by simp
      have s1: "reachable P cpu s1"
        by (rule reachable.step[OF Cons.prems(1) P]) (simp add: Inr r)
      show ?thesis
      proof (cases go)
        case True
        with run Inr r have "start msgs s1 = (e, rest)" by simp
        from Cons.IH[OF s1 _ this Cons.prems(4)] Cons.prems(2) show ?thesis by simp
      next
        case False
        with run Inr r Cons.prems(4) s1 show ?thesis by auto
      qed
    qed
  qed
qed

lemma master_AB_reachable: "reachable (\<lambda>s job. 1 \<le> threads job) 1 master_AB"
proof -
  have p: "\<forall>job t. SUBMIT job \<in> set [SUBMIT job_A, SUBMIT job_B] \<longrightarrow> 1 \<le> threads job"
    by (auto simp: job_A_def job_B_def new_Job_def)
  have e: "start [SUBMIT job_A, SUBMIT job_B] (GridMaster 1 None) = (Blocked master_AB, [])"
    using master_AB_reached by (simp add: create_master_def)
  show ?thesis by (rule start_reachable[OF reachable.init p e]) simp
qed

lemma master_A_reached: "create_master 1 [SUBMIT job_A] = (Blocked master_A, [])"
  by code_simp

lemma master_ABCD_reached:
  "create_master 1 [SUBMIT job_A, SUBMIT job_B, SUBMIT job_C, SUBMIT job_D]
     = (Blocked master_ABCD, [])"
  by code_simp

lemma master_A_reachable: "reachable (\<lambda>s job. True) 1 master_A"
proof -
  have e: "start [SUBMIT job_A] (GridMaster 1 None) = (Blocked master_A, [])"
    using master_A_reached by (simp add: create_master_def)
  show ?thesis by (rule start_reachable[OF reachable.init _ e]) simp_all
qed

text \<open>
  C3. In every state that the master reaches by handling messages, the free slots and
  the threads of the running jobs add up to the total of the slots. When no submitted
  job has a negative thread count, the threads of the running jobs never exceed the
  total.
\<close>

theorem slots_accounted:
  "reachable P cpu s \<Longrightarrow>
   slots_available s + running_threads s = slots_total s
   \<and> (0 \<le> cpu \<and> (\<forall>t job. P t job \<longrightarrow> 0 \<le> threads job) \<longrightarrow> running_threads s \<le> slots_total s)"
proof -
  assume r: "reachable P cpu s"
  then have e: "slots_available s + running_threads s = slots_total s"
    using reachable_consistent by (auto simp: consistent_def)
  have "running_threads s \<le> slots_total s"
    if "0 \<le> cpu" "\<forall>t job. P t job \<longrightarrow> 0 \<le> threads job"
  proof -
    from reachable_nonneg[OF r that(1)] that(2) have "0 \<le> slots_available s"
      by (simp add: nonneg_def)
    with e show ?thesis by simp
  qed
  with e show ?thesis by blast
qed

theorem slots_accounted_witness:
  "slots_available master_AB + running_threads master_AB = slots_total master_AB
   \<and> running_threads master_AB \<le> slots_total master_AB"
  using slots_accounted[OF master_AB_reachable] by simp

subsection \<open>Edges after a submit\<close>

lemma find_job_promote:
  assumes c: "consistent s" and q: "(i, j) \<in> set (queued s)"
  shows "find_job (promote i j s) k = (if k = i then Some (j\<lparr>process := True\<rparr>) else find_job s k)"
proof -
  from c have dq: "distinct (map fst (queued s))" by (simp add: consistent_def)
  from q have iq: "i \<in> ids (queued s)" by (force simp: ids_def)
  with c have ir: "i \<notin> ids (running s)" by (auto simp: consistent_def)
  have "map_of (AList.delete i (queued s)) i = None" by (simp add: AList.delete_conv')
  then show ?thesis
    by (auto simp: find_job_def promote_queued_job[OF q] AList.update_conv' AList.delete_conv'
        split: option.splits)
qed

lemma edges_schedule:
  "consistent s \<Longrightarrow> map_option edges (find_job (schedule s) k) = map_option edges (find_job s k)"
proof (induction s rule: schedule_induct)
  case (idle s)
  then show ?case by (simp add: schedule_None)
next
  case (last s i j)
  from last.hyps have q: "(i, j) \<in> set (queued s)" by (simp add: first_fit_queued)
  from last.prems have dq: "distinct (map fst (queued s))" by (simp add: consistent_def)
  from q dq have "map_of (queued s) i = Some j" by simp
  then have "find_job s i = Some j" by (simp add: find_job_def)
  with last.hyps find_job_promote[OF last.prems q, of k] show ?case
    by (simp add: schedule_Some edges_def)
next
  case (again s i j)
  from again.hyps have q: "(i, j) \<in> set (queued s)" by (simp add: first_fit_queued)
  from again.prems have dq: "distinct (map fst (queued s))" by (simp add: consistent_def)
  from q dq have "map_of (queued s) i = Some j" by simp
  then have "find_job s i = Some j" by (simp add: find_job_def)
  with again.hyps find_job_promote[OF again.prems q, of k]
    again.IH[OF consistent_promote[OF again.prems q]]
  show ?case
    by (simp add: schedule_Some edges_def)
qed

lemma find_job_entered:
  assumes c: "consistent s"
  shows "find_job (entered job s) k =
     map_option (\<lambda>j. if k \<in> set (dependencies job) then add_child (current_id s + 1) j else j)
       (if k = current_id s + 1
        then Some (job\<lparr>stdout := resolve_log (current_id s + 1) (stdout job),
                        stderr := resolve_log (current_id s + 1) (stderr job)\<rparr>)
        else find_job s k)"
proof -
  let ?n = "current_id s + 1"
  have "?n \<notin> ids (queued s)" "?n \<notin> ids (running s)"
    using consistent_ids_le[OF c, of ?n] by auto
  then have fresh: "map_of (queued s) ?n = None" "map_of (running s) ?n = None"
    by (simp_all add: ids_map_of)
  show ?thesis
    using fresh
    by (auto simp: find_job_def entered_def Let_def map_of_on_keys split: option.splits)
qed

text \<open>
  C6. After the master has handled the submit of a job B from a reachable state, B is a
  job of the master under the next id, with the dependencies it was submitted with, and
  every job A of the master whose id is among them has B's id among its children: the
  edge from A to B is held by both jobs.
\<close>

theorem submit_mirrors_edges:
  assumes r: "reachable P cpu s" and h: "handle (SUBMIT job) s = Inr (go, s')"
  shows "\<exists>B. find_job s' (current_id s + 1) = Some B
     \<and> dependencies B = dependencies job
     \<and> (\<forall>d \<in> set (dependencies B). \<forall>A. find_job s' d = Some A \<longrightarrow>
           d \<in> set (dependencies B) \<and> current_id s + 1 \<in> set (children A))"
proof -
  let ?n = "current_id s + 1"
  let ?e = "entered job s"
  from r have c: "consistent s" by (rule reachable_consistent)
  have ce: "consistent ?e" by (rule consistent_entered[OF c])
  from h c have "s' = schedule ?e \<or> s' = ?e"
    by (auto simp: handle_submit_shape split: if_splits)
  then have ed: "map_option edges (find_job s' k) = map_option edges (find_job ?e k)" for k
    using edges_schedule[OF ce] by auto
  from find_job_entered[OF c, of job ?n] obtain B0 where
    B0: "find_job ?e ?n = Some B0" "dependencies B0 = dependencies job" by auto
  from ed[of ?n] B0 obtain B where
    B: "find_job s' ?n = Some B" "dependencies B = dependencies job"
    by (cases "find_job s' ?n") (auto simp: edges_def)
  have "?n \<in> set (children A)" if d: "d \<in> set (dependencies job)" and A: "find_job s' d = Some A" for d A
  proof -
    from ed[of d] A obtain A0 where A0: "find_job ?e d = Some A0" "children A0 = children A"
      by (cases "find_job ?e d") (auto simp: edges_def)
    from A0(1) d find_job_entered[OF c, of job d] have "?n \<in> set (children A0)"
      by (auto split: if_splits)
    with A0 show ?thesis by simp
  qed
  with B show ?thesis by auto
qed

theorem submit_mirrors_edges_witness:
  "\<exists>B A. find_job master_AB 2 = Some B \<and> dependencies B = [1]
     \<and> find_job master_AB 1 = Some A \<and> 2 \<in> set (children A)"
proof -
  have h: "handle (SUBMIT job_B) master_A = Inr (True, master_AB)" by code_simp
  have n: "current_id master_A + 1 = 2" by (simp add: master_A_def)
  from submit_mirrors_edges[OF master_A_reachable h, unfolded n] obtain B where
    B: "find_job master_AB 2 = Some B" "dependencies B = dependencies job_B"
    and A: "\<forall>d \<in> set (dependencies B). \<forall>A. find_job master_AB d = Some A \<longrightarrow>
           d \<in> set (dependencies B) \<and> 2 \<in> set (children A)"
    by blast
  have d: "dependencies job_B = [1]" by (simp add: job_B_def new_Job_def)
  obtain A0 where A0: "find_job master_AB 1 = Some A0"
    by (simp add: find_job_def master_AB_def)
  with A B(2) d have "2 \<in> set (children A0)" by simp
  with B d A0 show ?thesis by auto
qed

subsection \<open>Cascade removal\<close>

lemma remove_children_loop_Nil: "remove_children_loop [] s = Some s"
  by (subst remove_children_loop.simps) simp

lemma remove_children_loop_Cons:
  "remove_children_loop (c # cs) s =
     (case map_of (queued s) c of
        None \<Rightarrow> remove_children_loop cs s
      | Some child \<Rightarrow>
          Option.bind (remove_children_loop (children child) s)
            (\<lambda>s1. Option.bind (del_queued c (update_dependencies c child s1))
              (\<lambda>s2. remove_children_loop cs s2)))"
  by (subst remove_children_loop.simps) simp

lemma qdesc_Nil [simp]: "qdesc q [] = {}"
proof -
  have "k \<in> qdesc q [] \<Longrightarrow> False" for k
    by (induction rule: qdesc.induct) auto
  then show ?thesis by auto
qed

lemma qdesc_mono:
  assumes "k \<in> qdesc q cs" and "set cs \<subseteq> qdesc q' cs'"
    and "\<And>p j. p \<in> qdesc q cs \<Longrightarrow> map_of q p = Some j \<Longrightarrow> map_of q' p = Some j"
  shows "k \<in> qdesc q' cs'"
  using assms(1)
proof (induction rule: qdesc.induct)
  case (child c)
  with assms(2) show ?case by auto
next
  case (later p j c)
  from later.IH assms(3)[OF later.hyps(1,2)] later.hyps(3) show ?case
    by (rule qdesc.later)
qed

lemma qdesc_above:
  assumes "children_later q" and "k \<in> qdesc q cs"
  shows "\<exists>c \<in> set cs. c \<le> k"
  using assms(2)
proof (induction rule: qdesc.induct)
  case (child c)
  then show ?case by auto
next
  case (later p j c)
  from later.hyps(2) have "(p, j) \<in> set q" by (rule map_of_SomeD)
  with assms(1) later.hyps(3) have "p < c" by (auto simp: children_later_def)
  moreover from later.IH obtain c0 where "c0 \<in> set cs" "c0 \<le> p" by blast
  ultimately have "c0 \<in> set cs" "c0 \<le> c" by simp_all
  then show ?case by blast
qed

lemma qdesc_absent_head:
  assumes "map_of q c = None"
  shows "qdesc q (c # cs) = insert c (qdesc q cs)"
proof (intro equalityI subsetI)
  fix k assume "k \<in> qdesc q (c # cs)"
  then show "k \<in> insert c (qdesc q cs)"
  proof (induction rule: qdesc.induct)
    case (child k)
    then show ?case by (auto intro: qdesc.child)
  next
    case (later p j k)
    with assms show ?case by (auto intro: qdesc.later)
  qed
next
  fix k assume "k \<in> insert c (qdesc q cs)"
  then show "k \<in> qdesc q (c # cs)"
  proof
    assume "k = c" then show ?thesis by (simp add: qdesc.child)
  next
    assume "k \<in> qdesc q cs"
    then show ?thesis by (rule qdesc_mono) (auto intro: qdesc.child)
  qed
qed

lemma qdesc_split:
  assumes c: "map_of q c = Some child"
  defines "R \<equiv> insert c (qdesc q (children child))"
  shows "qdesc q (c # cs) = R \<union> qdesc (without R q) cs"
proof (intro equalityI subsetI)
  fix k assume "k \<in> qdesc q (c # cs)"
  then show "k \<in> R \<union> qdesc (without R q) cs"
  proof (induction rule: qdesc.induct)
    case (child k)
    then show ?case by (auto simp: R_def intro: qdesc.child)
  next
    case (later p j k)
    show ?case
    proof (cases "p \<in> R")
      case True
      then have "k \<in> qdesc q (children child)"
      proof (unfold R_def, elim insertE)
        assume "p = c"
        with later.hyps(2,3) c show ?thesis by (auto intro: qdesc.child)
      next
        assume "p \<in> qdesc q (children child)"
        from this later.hyps(2,3) show ?thesis by (rule qdesc.later)
      qed
      then show ?thesis by (simp add: R_def)
    next
      case False
      with later.IH have p: "p \<in> qdesc (without R q) cs" by simp
      from False later.hyps(2) have "map_of (without R q) p = Some j"
        by (simp add: map_of_without)
      from qdesc.later[OF p this later.hyps(3)] show ?thesis by simp
    qed
  qed
next
  fix k assume "k \<in> R \<union> qdesc (without R q) cs"
  then show "k \<in> qdesc q (c # cs)"
  proof
    assume "k \<in> R"
    then show ?thesis
    proof (unfold R_def, elim insertE)
      assume "k = c" then show ?thesis by (simp add: qdesc.child)
    next
      assume "k \<in> qdesc q (children child)"
      then show ?thesis
      proof (rule qdesc_mono)
        show "set (children child) \<subseteq> qdesc q (c # cs)"
          using c by (auto intro: qdesc.later[OF qdesc.child, of c])
      qed simp
    qed
  next
    assume "k \<in> qdesc (without R q) cs"
    then show ?thesis
    proof (rule qdesc_mono)
      show "set cs \<subseteq> qdesc q (c # cs)" by (auto intro: qdesc.child)
    next
      fix p j assume "map_of (without R q) p = Some j"
      then show "map_of q p = Some j" by (simp add: map_of_without split: if_splits)
    qed
  qed
qed

lemma children_later_without: "children_later q \<Longrightarrow> children_later (without K q)"
  by (auto simp: children_later_def without_def)

lemma without_cong_keys:
  "K \<inter> ids al = L \<inter> ids al \<Longrightarrow> without K al = without L al"
proof -
  assume eq: "K \<inter> ids al = L \<inter> ids al"
  have "(k \<notin> K) = (k \<notin> L)" if "(k, j) \<in> set al" for k j
  proof -
    from that have "k \<in> ids al" by (force simp: ids_def)
    with eq show ?thesis by blast
  qed
  then show ?thesis unfolding without_def by (intro filter_cong) auto
qed

lemma remove_children_loop_bounded:
  fixes M :: int
  assumes "children_later (queued s)" and "\<forall>k \<in> ids (queued s). k \<le> M"
    and "\<forall>c \<in> set cs. c \<in> ids (queued s) \<longrightarrow> nat (M - c) < n"
  shows "remove_children_loop cs s
     = Some (s\<lparr>queued := without (qdesc (queued s) cs) (queued s)\<rparr>)"
  using assms
proof (induction n arbitrary: cs s rule: less_induct)
  case (less n)
  note outer = less.IH
  from less.prems show ?case
  proof (induction cs arbitrary: s)
    case Nil
    then show ?case by (simp add: remove_children_loop_Nil)
  next
    case (Cons c cs)
    let ?q = "queued s"
    show ?case
    proof (cases "map_of ?q c")
      case None
      have "remove_children_loop cs s = Some (s\<lparr>queued := without (qdesc ?q cs) ?q\<rparr>)"
        using Cons.prems by (intro Cons.IH) auto
      moreover have "without (qdesc ?q (c # cs)) ?q = without (qdesc ?q cs) ?q"
        using None by (intro without_cong_keys) (auto simp: qdesc_absent_head ids_map_of)
      ultimately show ?thesis using None by (simp add: remove_children_loop_Cons)
    next
      case (Some child)
      let ?D = "qdesc ?q (children child)"
      let ?R = "insert c ?D"
      from Some have cq: "(c, child) \<in> set ?q" by (rule map_of_SomeD)
      then have cid: "c \<in> ids ?q" by (force simp: ids_def)
      from cq Cons.prems(1) have above: "\<forall>c' \<in> set (children child). c < c'"
        by (auto simp: children_later_def)
      have n: "nat (M - c) < n" using Cons.prems(3) cid by simp
      have "\<forall>c' \<in> set (children child). c' \<in> ids ?q \<longrightarrow> nat (M - c') < nat (M - c)"
        using above Cons.prems(2) by fastforce
      from outer[OF n Cons.prems(1,2) this]
      have s1: "remove_children_loop (children child) s = Some (s\<lparr>queued := without ?D ?q\<rparr>)" .
      let ?s1 = "s\<lparr>queued := without ?D ?q\<rparr>"
      have "\<forall>c' \<in> set (children child). map_of (queued ?s1) c' = None"
        by (auto simp: map_of_without intro: qdesc.child)
      then have ud: "update_dependencies c child ?s1 = ?s1"
        by (simp add: update_dependencies_def update_dependencies_loop_noop)
      have "c \<notin> ?D"
      proof
        assume "c \<in> ?D"
        from qdesc_above[OF Cons.prems(1) this] above show False by force
      qed
      with cid have "c \<in> ids (queued ?s1)" by (simp add: ids_without)
      then have s2: "del_queued c ?s1 = Some (s\<lparr>queued := without ?R ?q\<rparr>)"
        by (simp add: del_queued_def ids_def delete_without without_without)
      let ?s2 = "s\<lparr>queued := without ?R ?q\<rparr>"
      have "remove_children_loop cs ?s2
          = Some (?s2\<lparr>queued := without (qdesc (queued ?s2) cs) (queued ?s2)\<rparr>)"
        using Cons.prems by (intro Cons.IH) (auto simp: children_later_without ids_without)
      then have s3: "remove_children_loop cs ?s2
          = Some (s\<lparr>queued := without (qdesc (without ?R ?q) cs \<union> ?R) ?q\<rparr>)"
        by (simp add: without_without)
      have "qdesc ?q (c # cs) = qdesc (without ?R ?q) cs \<union> ?R"
        using qdesc_split[OF Some, of cs] by (simp add: Un_commute)
      with s1 ud s2 s3 Some show ?thesis
        by (simp add: remove_children_loop_Cons)
    qed
  qed
qed

lemma remove_children_loop_exact:
  assumes "children_later (queued s)"
  shows "remove_children_loop cs s
     = Some (s\<lparr>queued := without (qdesc (queued s) cs) (queued s)\<rparr>)"
proof -
  let ?K = "insert 0 (ids (queued s))"
  have fin: "finite ?K" by (simp add: ids_def)
  have up: "\<forall>k \<in> ids (queued s). k \<le> Max ?K" using fin by simp
  have lo: "\<forall>c \<in> set cs. c \<in> ids (queued s) \<longrightarrow> nat (Max ?K - c) < Suc (nat (Max ?K - Min ?K))"
  proof (intro ballI impI)
    fix c assume "c \<in> ids (queued s)"
    then have "Min ?K \<le> c" using fin by simp
    then show "nat (Max ?K - c) < Suc (nat (Max ?K - Min ?K))" by simp
  qed
  from remove_children_loop_bounded[OF assms up lo] show ?thesis .
qed

lemma qdesc_not_running:
  assumes cs: "no_running_child s cs"
    and q: "\<forall>(i, j) \<in> set (queued s). no_running_child s (children j)"
    and p: "p \<in> qdesc (queued s) cs"
  shows "p \<notin> ids (running s)"
  using p
proof (cases rule: qdesc.cases)
  case child
  with cs show ?thesis by (auto simp: no_running_child_def)
next
  case (later p' j)
  from later(2) have "(p', j) \<in> set (queued s)" by (rule map_of_SomeD)
  with q later(3) show ?thesis by (auto simp: no_running_child_def)
qed

lemma descendants_eq_qdesc:
  assumes cs: "no_running_child s cs"
    and q: "\<forall>(i, j) \<in> set (queued s). no_running_child s (children j)"
  shows "descendants s cs = qdesc (queued s) cs"
proof (intro equalityI subsetI)
  fix k assume "k \<in> descendants s cs"
  then show "k \<in> qdesc (queued s) cs"
  proof (induction rule: descendants.induct)
    case (child c)
    then show ?case by (rule qdesc.child)
  next
    case (later p j c)
    from qdesc_not_running[OF cs q later.IH] have "map_of (running s) p = None"
      by (simp add: ids_map_of)
    with later.hyps(2) have "map_of (queued s) p = Some j"
      by (auto simp: find_job_def split: option.splits)
    from later.IH this later.hyps(3) show ?case by (rule qdesc.later)
  qed
next
  fix k assume "k \<in> qdesc (queued s) cs"
  then show "k \<in> descendants s cs"
  proof (induction rule: qdesc.induct)
    case (child c)
    then show ?case by (rule descendants.child)
  next
    case (later p j c)
    from later.hyps(2) have "find_job s p = Some j" by (simp add: find_job_def)
    from later.IH this later.hyps(3) show ?case by (rule descendants.later)
  qed
qed




subsection \<open>The edges of reachable states\<close>

text \<open>
  The hypotheses of the cascade removal hold where the handlers call it: the reachable
  states are linked when every submitted job names earlier jobs only, and a completion
  notice with a nonzero code removes the descendants of its job.
\<close>

lemma linkedI:
  assumes "children_later (queued s)"
    and "\<And>i j c. (i, j) \<in> set (queued s) \<or> (i, j) \<in> set (running s) \<Longrightarrow>
           c \<in> set (children j) \<Longrightarrow> edge_ok s i c"
  shows "linked s"
  using assms unfolding linked_def by blast

lemma linked_edge:
  "linked s \<Longrightarrow> (i, j) \<in> set (queued s) \<or> (i, j) \<in> set (running s) \<Longrightarrow>
   c \<in> set (children j) \<Longrightarrow> edge_ok s i c"
  unfolding linked_def by blast

lemma linked_later: "linked s \<Longrightarrow> children_later (queued s)"
  by (simp add: linked_def)

lemma set_on_keys:
  "(k, j') \<in> set (on_keys K f al) \<longleftrightarrow> (\<exists>j. (k, j) \<in> set al \<and> j' = (if k \<in> K then f j else j))"
  by (induction al) (auto simp: on_keys_def)

lemma in_ids: "(k, j) \<in> set al \<Longrightarrow> k \<in> ids al"
  by (force simp: ids_def)

lemma linked_cong:
  "linked s \<Longrightarrow> queued s' = queued s \<Longrightarrow> running s' = running s \<Longrightarrow>
   current_id s' = current_id s \<Longrightarrow> linked s'"
  by (simp add: linked_def edge_ok_def)

lemma set_without: "(k, j) \<in> set (without K al) \<longleftrightarrow> (k, j) \<in> set al \<and> k \<notin> K"
  by (auto simp: without_def)

lemma children_later_alt:
  "children_later q \<longleftrightarrow>
     (\<forall>(k, cs) \<in> set (map (\<lambda>(k, j). (k, children j)) q). \<forall>c \<in> set cs. k < c)"
  by (auto simp: children_later_def)

lemma children_on_keys:
  "(\<And>j. children (f j) = children j) \<Longrightarrow>
   map (\<lambda>(k, j). (k, children j)) (on_keys K f q) = map (\<lambda>(k, j). (k, children j)) q"
  by (induction q) (auto simp: on_keys_def)

lemma children_later_on_keys:
  "(\<And>j. children (f j) = children j) \<Longrightarrow> children_later (on_keys K f q) = children_later q"
  by (simp only: children_later_alt children_on_keys)

lemma linked_GridMaster: "linked (GridMaster cpu cores)"
  by (simp add: linked_def GridMaster_def Let_def children_later_def)

lemma linked_leave_running:
  assumes f: "linked s"
  shows "linked (s\<lparr>slots_available := a, running := AList.delete i (running s)\<rparr>)"
proof (rule linkedI)
  show "children_later (queued (s\<lparr>slots_available := a, running := AList.delete i (running s)\<rparr>))"
    using linked_later[OF f] by simp
next
  fix k j c
  assume "(k, j) \<in> set (queued (s\<lparr>slots_available := a, running := AList.delete i (running s)\<rparr>))
      \<or> (k, j) \<in> set (running (s\<lparr>slots_available := a, running := AList.delete i (running s)\<rparr>))"
    and c: "c \<in> set (children j)"
  then have "(k, j) \<in> set (queued s) \<or> (k, j) \<in> set (running s)"
    by (auto simp: delete_without set_without)
  from linked_edge[OF f this c]
  show "edge_ok (s\<lparr>slots_available := a, running := AList.delete i (running s)\<rparr>) k c"
    by (auto simp: edge_ok_def ids_delete)
qed

lemma linked_released:
  assumes f: "linked t" and ir: "i \<notin> ids (running t)" and iq: "i \<notin> ids (queued t) \<or> i \<in> K"
  shows "linked (released i job K t)"
proof (rule linkedI)
  show "children_later (queued (released i job K t))"
    using linked_later[OF f] by (simp add: children_later_without children_later_on_keys)
next
  fix k j' c
  assume a: "(k, j') \<in> set (queued (released i job K t)) \<or> (k, j') \<in> set (running (released i job K t))"
    and c: "c \<in> set (children j')"
  have "\<exists>j. ((k, j) \<in> set (queued t) \<or> (k, j) \<in> set (running t))
      \<and> children j' = children j \<and> k \<noteq> i"
    using a
  proof
    assume "(k, j') \<in> set (running (released i job K t))"
    then have r: "(k, j') \<in> set (running t)" by simp
    from in_ids[OF r] ir have "k \<noteq> i" by auto
    with r show ?thesis by blast
  next
    assume "(k, j') \<in> set (queued (released i job K t))"
    then obtain j where j: "(k, j) \<in> set (queued t)" "k \<notin> K"
      and j': "j' = (if k \<in> set (children job) then discard_dependency i j else j)"
      by (auto simp: set_without set_on_keys)
    from in_ids[OF j(1)] j(2) iq have "k \<noteq> i" by auto
    moreover from j' have "children j' = children j" by simp
    ultimately show ?thesis using j(1) by blast
  qed
  then obtain j where j: "(k, j) \<in> set (queued t) \<or> (k, j) \<in> set (running t)"
    and ch: "children j' = children j" and ki: "k \<noteq> i" by blast
  from linked_edge[OF f j] c ch have e: "edge_ok t k c" by simp
  show "edge_ok (released i job K t) k c"
    unfolding edge_ok_def
  proof (intro conjI allI impI)
    from e show "c \<le> current_id (released i job K t)" "c \<notin> ids (running (released i job K t))"
      by (simp_all add: edge_ok_def)
  next
    fix B' assume "map_of (queued (released i job K t)) c = Some B'"
    then obtain B where "map_of (queued t) c = Some B"
      and "set (dependencies B') = set (dependencies B) \<or> set (dependencies B') = set (dependencies B) - {i}"
      by (auto simp: map_of_without map_of_on_keys split: if_splits)
    with e ki show "k \<in> set (dependencies B')" by (auto simp: edge_ok_def)
  qed
qed

lemma linked_promote:
  assumes c: "consistent s" and f: "linked s" and q: "(i, j) \<in> set (queued s)"
    and d: "dependencies j = []"
  shows "linked (promote i j s)"
proof (rule linkedI)
  show "children_later (queued (promote i j s))"
    using linked_later[OF f] by (simp add: promote_queued_job[OF q] delete_without children_later_without)
next
  from c have dq: "distinct (map fst (queued s))" by (simp add: consistent_def)
  with q have mi: "map_of (queued s) i = Some j" by simp
  from q have "i \<in> ids (queued s)" by (force simp: ids_def)
  with c have ir: "i \<notin> ids (running s)" by (auto simp: consistent_def)
  fix k A c'
  assume a: "(k, A) \<in> set (queued (promote i j s)) \<or> (k, A) \<in> set (running (promote i j s))"
    and ch: "c' \<in> set (children A)"
  have "\<exists>A0. ((k, A0) \<in> set (queued s) \<or> (k, A0) \<in> set (running s))
      \<and> children A = children A0"
    using a
  proof
    assume "(k, A) \<in> set (queued (promote i j s))"
    then have "(k, A) \<in> set (queued s)"
      by (simp add: promote_queued_job[OF q] delete_without set_without)
    then show ?thesis by blast
  next
    assume "(k, A) \<in> set (running (promote i j s))"
    then have "(k, A) \<in> set (running s) \<or> (k = i \<and> A = j\<lparr>process := True\<rparr>)"
      using ir by (auto simp: promote_queued_job[OF q] update_absent)
    then show ?thesis
    proof
      assume "(k, A) \<in> set (running s)" then show ?thesis by blast
    next
      assume "k = i \<and> A = j\<lparr>process := True\<rparr>"
      with q have "(k, j) \<in> set (queued s)" "children A = children j" by simp_all
      then show ?thesis by blast
    qed
  qed
  then obtain A0 where A0: "(k, A0) \<in> set (queued s) \<or> (k, A0) \<in> set (running s)"
    and cc: "children A = children A0" by blast
  from linked_edge[OF f A0] ch cc have e: "edge_ok s k c'" by simp
  have "c' \<noteq> i"
  proof
    assume "c' = i"
    with e mi d show False by (simp add: edge_ok_def)
  qed
  with e show "edge_ok (promote i j s) k c'"
    by (auto simp: edge_ok_def promote_queued_job[OF q] ids_update delete_without map_of_without)
qed

lemma linked_schedule: "consistent s \<Longrightarrow> linked s \<Longrightarrow> linked (schedule s)"
proof (induction s rule: schedule_induct)
  case (idle s)
  then show ?case by (simp add: schedule_None)
next
  case (last s i j)
  then show ?case
    by (simp add: schedule_Some linked_promote first_fit_queued first_fit_runnable)
next
  case (again s i j)
  then show ?case
    by (simp add: schedule_Some linked_promote consistent_promote first_fit_queued first_fit_runnable)
qed

lemma linked_entered:
  assumes c: "consistent s" and f: "linked s" and n: "names_earlier_jobs s job"
  shows "linked (entered job s)"
proof -
  let ?n = "current_id s + 1"
  let ?D = "set (dependencies job)"
  let ?job = "job\<lparr>stdout := resolve_log ?n (stdout job), stderr := resolve_log ?n (stderr job)\<rparr>"
  have nD: "?n \<notin> ?D" using n by (fastforce simp: names_earlier_jobs_def)
  have fresh: "?n \<notin> ids (queued s)" "?n \<notin> ids (running s)"
    using consistent_ids_le[OF c, of ?n] by auto
  have q': "queued (entered job s) = on_keys ?D (add_child ?n) (queued s @ [(?n, ?job)])"
    and r': "running (entered job s) = on_keys ?D (add_child ?n) (running s)"
    by (simp_all add: entered_def Let_def)
  have no_children: "children ?job = []" using n by (simp add: names_earlier_jobs_def)
  have old: "\<exists>j. (if qd then (k, j) \<in> set (queued s) else (k, j) \<in> set (running s))
       \<and> (c' \<in> set (children j) \<or> (c' = ?n \<and> k \<in> ?D))"
    if kj: "if qd then (k, j') \<in> set (queued (entered job s)) else (k, j') \<in> set (running (entered job s))"
      and c': "c' \<in> set (children j')" for qd k j' c'
  proof (cases qd)
    case True
    with kj obtain j where j: "(k, j) \<in> set (queued s) \<or> (k = ?n \<and> j = ?job)"
      and j': "j' = (if k \<in> ?D then add_child ?n j else j)"
      by (auto simp: q' set_on_keys)
    from j show ?thesis
    proof
      assume "(k, j) \<in> set (queued s)"
      with j' c' True show ?thesis by (cases "k \<in> ?D") auto
    next
      assume "k = ?n \<and> j = ?job"
      with j' nD no_children c' show ?thesis by simp
    qed
  next
    case False
    with kj obtain j where j: "(k, j) \<in> set (running s)"
      and j': "j' = (if k \<in> ?D then add_child ?n j else j)"
      by (auto simp: r' set_on_keys)
    with c' False show ?thesis by (cases "k \<in> ?D") auto
  qed
  show ?thesis
  proof (rule linkedI)
    show "children_later (queued (entered job s))"
      unfolding children_later_def
    proof (intro ballI, clarify)
      fix k j' c' assume kj: "(k, j') \<in> set (queued (entered job s))" and c': "c' \<in> set (children j')"
      from old[of True k j' c'] kj c' obtain j where
        j: "(k, j) \<in> set (queued s)" and cc: "c' \<in> set (children j) \<or> (c' = ?n \<and> k \<in> ?D)"
        by auto
      from cc show "k < c'"
      proof
        assume "c' \<in> set (children j)"
        with j linked_later[OF f] show ?thesis by (auto simp: children_later_def)
      next
        assume "c' = ?n \<and> k \<in> ?D"
        moreover from consistent_ids_le[OF c, of k] in_ids[OF j] have "k \<le> current_id s" by simp
        ultimately show ?thesis by simp
      qed
    qed
  next
    fix k j' c'
    assume kj: "(k, j') \<in> set (queued (entered job s)) \<or> (k, j') \<in> set (running (entered job s))"
      and c': "c' \<in> set (children j')"
    have "\<exists>j. ((k, j) \<in> set (queued s) \<or> (k, j) \<in> set (running s))
        \<and> (c' \<in> set (children j) \<or> (c' = ?n \<and> k \<in> ?D))"
      using kj
    proof
      assume "(k, j') \<in> set (queued (entered job s))"
      with old[of True k j' c'] c' show ?thesis by auto
    next
      assume "(k, j') \<in> set (running (entered job s))"
      with old[of False k j' c'] c' show ?thesis by auto
    qed
    then obtain j where j: "(k, j) \<in> set (queued s) \<or> (k, j) \<in> set (running s)"
      and cc: "c' \<in> set (children j) \<or> (c' = ?n \<and> k \<in> ?D)" by blast
    from cc show "edge_ok (entered job s) k c'"
    proof
      assume "c' \<in> set (children j)"
      from linked_edge[OF f j this] have e: "edge_ok s k c'" .
      then have ne: "c' \<noteq> ?n" by (auto simp: edge_ok_def)
      show ?thesis
        unfolding edge_ok_def
      proof (intro conjI allI impI)
        from e show "c' \<le> current_id (entered job s)" by (simp add: edge_ok_def)
        from e show "c' \<notin> ids (running (entered job s))" by (simp add: edge_ok_def)
      next
        fix B' assume "map_of (queued (entered job s)) c' = Some B'"
        with ne obtain B where "map_of (queued s) c' = Some B" "dependencies B' = dependencies B"
          by (auto simp: q' map_of_on_keys split: if_splits)
        with e show "k \<in> set (dependencies B')" by (simp add: edge_ok_def)
      qed
    next
      assume a: "c' = ?n \<and> k \<in> ?D"
      have "map_of (queued s) ?n = None" using fresh by (simp add: ids_map_of)
      then have "map_of (queued (entered job s)) ?n = Some ?job"
        using nD by (simp add: q' map_of_on_keys map_add_def)
      with a fresh show ?thesis by (simp add: edge_ok_def)
    qed
  qed
qed

lemma linked_handle:
  assumes c: "consistent s" and f: "linked s" and h: "handle m s = Inr (go, s')"
    and P: "\<And>job. m = SUBMIT job \<Longrightarrow> names_earlier_jobs s job"
  shows "linked s'"
proof -
  have dq: "distinct (map fst (queued s))" and dr: "distinct (map fst (running s))"
    and dj: "ids (queued s) \<inter> ids (running s) = {}"
    using c by (simp_all add: consistent_def)
  have gone: "linked (schedule (released i job K
           (s\<lparr>slots_available := slots_available s + threads job,
              running := AList.delete i (running s)\<rparr>)))"
    if r: "map_of (running s) i = Some job" for i job K
  proof -
    let ?t = "s\<lparr>slots_available := slots_available s + threads job,
              running := AList.delete i (running s)\<rparr>"
    from r have "i \<in> ids (running s)" by (simp add: ids_map_of)
    with dj have "i \<notin> ids (queued ?t)" by auto
    moreover have "i \<notin> ids (running ?t)" by (simp add: ids_delete)
    ultimately have "linked (released i job K ?t)"
      using linked_leave_running[OF f] by (intro linked_released) auto
    then show ?thesis
      by (intro linked_schedule consistent_released consistent_leave_running[OF c r])
  qed
  show ?thesis
  proof (cases m)
    case EXIT
    with h f show ?thesis by (auto simp: handle_exit_def split: if_splits)
  next
    case JOBS
    with h have "s' = s\<lparr>response := response s @ [JobList (map fst (queued s) @ map fst (running s))]\<rparr>"
      by (auto simp: handle_jobs_def)
    then show ?thesis by (intro linked_cong[OF f]) simp_all
  next
    case (SUBMIT job)
    with h c f P[OF SUBMIT] show ?thesis
      by (auto simp: handle_submit_shape linked_entered linked_schedule consistent_entered
          split: if_splits)
  next
    case WAIT
    with h have "s' = s\<lparr>wait_mode := True\<rparr> \<or> s' = s"
      by (auto simp: handle_wait_def split: if_splits)
    then show ?thesis by (auto intro: linked_cong[OF f])
  next
    case (DONE i st)
    show ?thesis
    proof (cases "map_of (running s) i")
      case None
      with DONE h f show ?thesis by (simp add: handle_done_def)
    next
      case (Some job)
      from DONE h have "handle_done i st s = Inr (go, s')" by simp
      from handle_done_shape[OF dq Some this] gone[OF Some] show ?thesis by auto
    qed
  next
    case (FAILED i err)
    with h show ?thesis by (simp add: handle_failed_def unning_def)
  next
    case (CANCEL oi)
    show ?thesis
    proof (cases oi)
      case None
      with CANCEL h show ?thesis by simp
    next
      case (Some i)
      with CANCEL h have hc: "handle_cancel i s = Inr (go, s')" by simp
      from handle_cancel_shape[OF dq hc] show ?thesis
      proof (elim disjE exE conjE)
        assume "s' = s" with f show ?thesis by simp
      next
        fix job K assume "map_of (running s) i = Some job"
          and "s' = schedule (released i job K
            (s\<lparr>slots_available := slots_available s + threads job,
               running := AList.delete i (running s)\<rparr>))"
        with gone show ?thesis by simp
      next
        fix job K assume nr: "map_of (running s) i = None" and "i \<in> K"
          and s': "s' = schedule (released i job K s)"
        then have "linked (released i job K s)"
          using f by (intro linked_released) (auto simp: ids_map_of)
        with s' show ?thesis
          by (simp add: linked_schedule consistent_released[OF c])
      qed
    qed
  qed
qed

lemma reachable_linked:
  assumes "reachable P cpu s" and "\<And>t job. P t job \<Longrightarrow> names_earlier_jobs t job"
  shows "linked s"
  using assms(1)
proof (induction rule: reachable.induct)
  case init
  show ?case by (rule linked_GridMaster)
next
  case (step s m go s')
  show ?case
  proof (rule linked_handle[OF reachable_consistent[OF step.hyps(1)] step.IH step.hyps(3)])
    fix job assume "m = SUBMIT job"
    with step.hyps(2) assms(2) show "names_earlier_jobs s job" by simp
  qed
qed

lemma qdesc_on_keys:
  assumes f: "\<And>j. children (f j) = children j"
  shows "qdesc (on_keys K f q) cs = qdesc q cs"
proof (intro equalityI subsetI)
  fix k assume "k \<in> qdesc (on_keys K f q) cs"
  then show "k \<in> qdesc q cs"
  proof (induction rule: qdesc.induct)
    case (child c)
    then show ?case by (rule qdesc.child)
  next
    case (later p j c)
    from later.hyps(2) obtain j0 where "map_of q p = Some j0" "children j = children j0"
      by (auto simp: map_of_on_keys f split: if_splits)
    with later.IH later.hyps(3) show ?case by (auto intro: qdesc.later)
  qed
next
  fix k assume "k \<in> qdesc q cs"
  then show "k \<in> qdesc (on_keys K f q) cs"
  proof (induction rule: qdesc.induct)
    case (child c)
    then show ?case by (rule qdesc.child)
  next
    case (later p j c)
    let ?j = "if p \<in> K then f j else j"
    from later.hyps(2) have "map_of (on_keys K f q) p = Some ?j"
      by (simp add: map_of_on_keys)
    moreover from later.hyps(3) have "c \<in> set (children ?j)" by (simp add: f)
    ultimately show ?case using later.IH by (auto intro: qdesc.later)
  qed
qed

lemma without_on_keys_gone: "K \<subseteq> D \<Longrightarrow> without D (on_keys K f q) = without D q"
  by (induction q) (auto simp: without_def on_keys_def)

lemma linked_no_running_child:
  assumes f: "linked s"
  shows "(i, j) \<in> set (queued s) \<or> (i, j) \<in> set (running s) \<Longrightarrow> no_running_child s (children j)"
proof -
  assume a: "(i, j) \<in> set (queued s) \<or> (i, j) \<in> set (running s)"
  have "c \<notin> ids (running s)" if "c \<in> set (children j)" for c
    using linked_edge[OF f a that] by (simp add: edge_ok_def)
  then show ?thesis by (auto simp: no_running_child_def)
qed

lemma done_nonzero_cascades:
  assumes r: "reachable P cpu s" and P: "\<And>t job. P t job \<Longrightarrow> names_earlier_jobs t job"
    and run: "map_of (running s) i = Some job" and st: "st \<noteq> 0"
  shows "handle (DONE i st) s =
     Inr (True, schedule (s\<lparr>slots_available := slots_available s + threads job,
                           running := AList.delete i (running s),
                           queued := without (descendants s (children job)) (queued s)\<rparr>))"
proof -
  let ?C = "children job"
  let ?q = "queued s"
  let ?job1 = "job\<lparr>process := False\<rparr>"
  let ?s2 = "s\<lparr>running := AList.update i ?job1 (running s),
               slots_available := slots_available s + threads job\<rparr>"
  let ?s3 = "update_dependencies i ?job1 ?s2"
  from r have c: "consistent s" by (rule reachable_consistent)
  from r P have f: "linked s" by (rule reachable_linked)
  from c have dq: "distinct (map fst ?q)" by (simp add: consistent_def)
  from reachable_with_process[OF r] run have pr: "process job"
    by (auto simp: with_process_def dest: list_all_map_of)
  have s3: "?s3 = ?s2\<lparr>queued := on_keys (set ?C) (discard_dependency i) ?q\<rparr>"
    using dq by (simp add: update_dependencies_def update_dependencies_loop_eq)
  have "children_later (queued ?s3)"
    using linked_later[OF f] by (simp add: s3 children_later_on_keys)
  from remove_children_loop_exact[OF this, of ?C]
  have "remove_children ?job1 ?s3
      = Some (?s3\<lparr>queued := without (qdesc (queued ?s3) ?C) (queued ?s3)\<rparr>)"
    by (simp add: remove_children_def)
  moreover have "qdesc (queued ?s3) ?C = qdesc ?q ?C"
    by (simp add: s3 qdesc_on_keys)
  moreover have "without (qdesc ?q ?C) (on_keys (set ?C) (discard_dependency i) ?q)
      = without (qdesc ?q ?C) ?q"
    by (rule without_on_keys_gone) (auto intro: qdesc.child)
  moreover have "descendants s ?C = qdesc ?q ?C"
  proof (rule descendants_eq_qdesc)
    from run have "(i, job) \<in> set (running s)" by (rule map_of_SomeD)
    then show "no_running_child s ?C" using linked_no_running_child[OF f] by blast
    show "\<forall>(k, j) \<in> set ?q. no_running_child s (children j)"
      using linked_no_running_child[OF f] by blast
  qed
  ultimately have "cascade ?job1 ?s3
      = Inr (?s2\<lparr>queued := without (descendants s ?C) ?q\<rparr>)"
    by (simp add: cascade_def s3)
  moreover have "(?s2\<lparr>queued := without (descendants s ?C) ?q\<rparr>)
        \<lparr>running := AList.delete i (running (?s2\<lparr>queued := without (descendants s ?C) ?q\<rparr>))\<rparr>
      = s\<lparr>slots_available := slots_available s + threads job,
           running := AList.delete i (running s),
           queued := without (descendants s ?C) ?q\<rparr>"
    by (rule master.equality) (simp_all add: AList.delete_update_same)
  ultimately show ?thesis
    using run pr st by (simp add: handle_done_def Let_def)
qed

subsection \<open>Handlers that return\<close>

text \<open>
  From a reachable state, when every submitted job names earlier jobs only, every
  handler returns but two: the failure handler, and the cancellation of a job that has
  no id.
\<close>

lemma cascade_returns:
  "children_later (queued s) \<Longrightarrow> \<exists>s'. cascade job s = Inr s'"
  using remove_children_loop_exact[of s "children job"]
  by (simp add: cascade_def remove_children_def)

lemma handlers_return:
  assumes r: "reachable P cpu s" and P: "\<And>t job. P t job \<Longrightarrow> names_earlier_jobs t job"
    and m: "\<forall>i err. m \<noteq> FAILED i err" "m \<noteq> CANCEL None"
  shows "\<exists>go s'. handle m s = Inr (go, s')"
proof -
  from r have c: "consistent s" by (rule reachable_consistent)
  from r P have f: "linked s" by (rule reachable_linked)
  from r have w: "with_process s" by (rule reachable_with_process)
  have dq: "distinct (map fst (queued s))" using c by (simp add: consistent_def)
  have pr: "process job" if "map_of (running s) i = Some job" for i job
    using w that by (auto simp: with_process_def dest: list_all_map_of)
  have ud: "children_later (queued (update_dependencies i job t))"
    if "children_later (queued t)" "distinct (map fst (queued t))" for i job t
    using that by (simp add: update_dependencies_def update_dependencies_loop_eq children_later_on_keys)
  show ?thesis
  proof (cases m)
    case EXIT
    with w have "handle m s = Inr (False, s)" by (simp add: handle_exit_def with_process_def)
    then show ?thesis by blast
  next
    case JOBS
    then show ?thesis by (auto simp: handle_jobs_def)
  next
    case (SUBMIT job)
    then show ?thesis by (auto simp: handle_submit_def Let_def next_id_def)
  next
    case WAIT
    then show ?thesis by (auto simp: handle_wait_def)
  next
    case (DONE i st)
    show ?thesis
    proof (cases "map_of (running s) i")
      case None
      with DONE show ?thesis by (auto simp: handle_done_def)
    next
      case (Some job)
      let ?job1 = "job\<lparr>process := False\<rparr>"
      let ?s2 = "s\<lparr>running := AList.update i ?job1 (running s),
                   slots_available := slots_available s + threads job\<rparr>"
      have "children_later (queued (update_dependencies i ?job1 ?s2))"
        using linked_later[OF f] dq by (intro ud) simp_all
      from cascade_returns[OF this, of ?job1] obtain s4 where
        "cascade ?job1 (update_dependencies i ?job1 ?s2) = Inr s4" ..
      with DONE Some pr[OF Some] show ?thesis
        by (auto simp: handle_done_def Let_def)
    qed
  next
    case (FAILED i err)
    with m show ?thesis by simp
  next
    case (CANCEL oi)
    with m obtain i where oi: "oi = Some i" by (cases oi) auto
    show ?thesis
    proof (cases "map_of (running s) i")
      case (Some job)
      let ?job1 = "job\<lparr>process := False\<rparr>"
      let ?t = "s\<lparr>slots_available := slots_available s + threads job,
                  running := AList.delete i (running s)\<rparr>"
      have "children_later (queued (update_dependencies i ?job1 ?t))"
        using linked_later[OF f] dq by (intro ud) simp_all
      from cascade_returns[OF this, of ?job1] obtain s2 where
        "cascade ?job1 (update_dependencies i ?job1 ?t) = Inr s2" ..
      with CANCEL oi Some pr[OF Some] show ?thesis
        by (auto simp: handle_cancel_def Let_def)
    next
      case None
      note nr = this
      show ?thesis
      proof (cases "map_of (queued s) i")
        case None
        with CANCEL oi nr show ?thesis by (auto simp: handle_cancel_def)
      next
        case (Some job)
        let ?t = "s\<lparr>queued := AList.delete i (queued s)\<rparr>"
        have "children_later (queued (update_dependencies i job ?t))"
          using linked_later[OF f] dq
          by (intro ud) (simp_all add: delete_without children_later_without distinct_without)
        from cascade_returns[OF this, of job] obtain s2 where
          "cascade job (update_dependencies i job ?t) = Inr s2" ..
        with CANCEL oi nr Some show ?thesis
          by (auto simp: handle_cancel_def Let_def)
      qed
    qed
  qed
qed

subsection \<open>The failure handler but for the name\<close>

text \<open>
  Had \<^verbatim>\<open>_handle_failed\<close> read \<^verbatim>\<open>self.running\<close>, it would return what the
  completion handler returns for a nonzero code: it gives the slots back after the
  cascade rather than before, and neither the cascade nor the update of the dependencies
  reads the slots.
\<close>

lemma failed_as_done_but_for_the_name:
  assumes dq: "distinct (map fst (queued s))" and cl: "children_later (queued s)"
    and run: "map_of (running s) i = Some job" and pr: "process job" and st: "st \<noteq> 0"
  shows "handle_failed_in (running s) i err s = handle_done i st s"
proof -
  let ?C = "children job"
  let ?job1 = "job\<lparr>process := False\<rparr>"
  let ?q = "on_keys (set ?C) (discard_dependency i) (queued s)"
  let ?D = "qdesc ?q ?C"
  have cl': "children_later ?q" using cl by (simp add: children_later_on_keys)
  let ?s1 = "s\<lparr>running := AList.update i ?job1 (running s)\<rparr>"
  let ?s2 = "?s1\<lparr>slots_available := slots_available s + threads job\<rparr>"
  have u1: "update_dependencies i ?job1 ?s1 = ?s1\<lparr>queued := ?q\<rparr>"
    using dq by (simp add: update_dependencies_def update_dependencies_loop_eq)
  have u2: "update_dependencies i ?job1 ?s2 = ?s2\<lparr>queued := ?q\<rparr>"
    using dq by (simp add: update_dependencies_def update_dependencies_loop_eq)
  have c1: "cascade ?job1 (?s1\<lparr>queued := ?q\<rparr>) = Inr (?s1\<lparr>queued := without ?D ?q\<rparr>)"
    using remove_children_loop_exact[of "?s1\<lparr>queued := ?q\<rparr>" ?C] cl'
    by (simp add: cascade_def remove_children_def)
  have c2: "cascade ?job1 (?s2\<lparr>queued := ?q\<rparr>) = Inr (?s2\<lparr>queued := without ?D ?q\<rparr>)"
    using remove_children_loop_exact[of "?s2\<lparr>queued := ?q\<rparr>" ?C] cl'
    by (simp add: cascade_def remove_children_def)
  have cas1: "cascade ?job1 (update_dependencies i ?job1 ?s1) = Inr (?s1\<lparr>queued := without ?D ?q\<rparr>)"
    using c1 by (simp only: u1)
  have cas2: "cascade ?job1 (update_dependencies i ?job1 ?s2) = Inr (?s2\<lparr>queued := without ?D ?q\<rparr>)"
    using c2 by (simp only: u2)
  let ?end = "s\<lparr>slots_available := slots_available s + threads job,
                running := AList.delete i (running s), queued := without ?D ?q\<rparr>"
  have e1: "(?s1\<lparr>queued := without ?D ?q\<rparr>)\<lparr>slots_available := slots_available s + threads job,
        running := AList.delete i (AList.update i ?job1 (running s))\<rparr> = ?end"
    by (rule master.equality) (simp_all add: AList.delete_update_same)
  have e2: "(?s2\<lparr>queued := without ?D ?q\<rparr>)\<lparr>running := AList.delete i (AList.update i ?job1 (running s))\<rparr>
      = ?end"
    by (rule master.equality) (simp_all add: AList.delete_update_same)
  from run have "i \<in> ids (running s)" by (simp add: ids_map_of)
  then have "i \<in> fst ` set (running s)" by (simp add: ids_def)
  with run have l: "handle_failed_in (running s) i err s = Inr (True, schedule ?end)"
    by (simp add: handle_failed_in_def Let_def cas1 e1[simplified])
  from run pr st have r: "handle_done i st s = Inr (True, schedule ?end)"
    by (simp add: handle_done_def Let_def cas2[simplified] e2[simplified])
  from l r show ?thesis by simp
qed

end
